theory Spec2Isabelle
  imports Complex_Main "HOL-Library.AList"
begin

section \<open>Attention control for prompt-to-prompt editing (main.py)\<close>

text \<open>
  The controllers of main.py are modelled by explicit state passing. Tensor elements are
  real numbers (exact arithmetic; the rounding of IEEE floats is not modelled). A tensor
  is its shape together with its elements in row-major order, as a contiguous torch
  tensor is. Every Python exception is a value of type \<open>error\<close>, and a function that
  can raise returns \<open>error + 'a\<close> with \<open>Inl\<close> for the exception.

  A division of tensor elements by zero does not raise in torch: the elements become
  inf or nan, which are not real numbers. The model reports that outcome as the value
  \<open>NonFinite\<close>; every other value of \<open>error\<close> is an exception of the source.

  Tensors are values here: the model assumes what the sampling loop does, namely that
  every interception receives a freshly computed tensor that the caller does not read
  again after a later step (the accumulator keeps the tensors it is given and adds to
  them in place).
\<close>

subsection \<open>Errors\<close>

datatype error =
    NotImplementedError
  | KeyError
  | IndexError
  | RuntimeError
  | ValueError
  | ZeroDivisionError
  | NonFinite

subsection \<open>Tensors\<close>

record 'a tensor =
  shape :: "nat list"
  vals :: "'a list"

definition wf_tensor :: "'a tensor \<Rightarrow> bool" where
  "wf_tensor t \<longleftrightarrow> length (vals t) = prod_list (shape t)"

text \<open>Row-major offset of a multi-index.\<close>

fun flat_index :: "nat list \<Rightarrow> nat list \<Rightarrow> nat" where
  "flat_index (d # ds) (i # is) = i * prod_list ds + flat_index ds is"
| "flat_index _ _ = 0"

fun valid_idx :: "nat list \<Rightarrow> nat list \<Rightarrow> bool" where
  "valid_idx [] [] = True"
| "valid_idx (d # ds) (i # is) = (i < d \<and> valid_idx ds is)"
| "valid_idx _ _ = False"

text \<open>All multi-indices of a shape, in row-major order.\<close>

fun all_idx :: "nat list \<Rightarrow> nat list list" where
  "all_idx [] = [[]]"
| "all_idx (d # ds) = concat (map (\<lambda>i. map ((#) i) (all_idx ds)) [0..<d])"

definition get :: "'a tensor \<Rightarrow> nat list \<Rightarrow> 'a" where
  "get t idx = vals t ! flat_index (shape t) idx"

definition tabulate :: "nat list \<Rightarrow> (nat list \<Rightarrow> 'a) \<Rightarrow> 'a tensor" where
  "tabulate s f = \<lparr>shape = s, vals = map f (all_idx s)\<rparr>"

text \<open>\<open>t.shape[i]\<close>: a tuple index out of range raises IndexError.\<close>

definition shape_at :: "'a tensor \<Rightarrow> nat \<Rightarrow> error + nat" where
  "shape_at t i = (if i < length (shape t) then Inr (shape t ! i) else Inl IndexError)"

text \<open>\<open>t[n:]\<close> along the first axis (\<open>n\<close> is clipped to the axis length by Python).\<close>

definition slice_from :: "nat \<Rightarrow> 'a tensor \<Rightarrow> error + 'a tensor" where
  "slice_from n t =
     (case shape t of
        [] \<Rightarrow> Inl IndexError
      | d # ds \<Rightarrow> Inr \<lparr>shape = (d - n) # ds, vals = drop (min n d * prod_list ds) (vals t)\<rparr>)"

text \<open>\<open>t[:n]\<close> along the first axis.\<close>

definition slice_upto :: "nat \<Rightarrow> 'a tensor \<Rightarrow> error + 'a tensor" where
  "slice_upto n t =
     (case shape t of
        [] \<Rightarrow> Inl IndexError
      | d # ds \<Rightarrow> Inr \<lparr>shape = min n d # ds, vals = take (min n d * prod_list ds) (vals t)\<rparr>)"

text \<open>\<open>t[i]\<close> along the first axis: a negative \<open>i\<close> counts from the end, IndexError out of range.\<close>

definition select0 :: "int \<Rightarrow> 'a tensor \<Rightarrow> error + 'a tensor" where
  "select0 i t =
     (case shape t of
        [] \<Rightarrow> Inl IndexError
      | d # ds \<Rightarrow>
          (let j = (if i < 0 then i + int d else i) in
           if 0 \<le> j \<and> j < int d
           then Inr \<lparr>shape = ds, vals = take (prod_list ds) (drop (nat j * prod_list ds) (vals t))\<rparr>
           else Inl IndexError))"

text \<open>\<open>t.reshape(*s)\<close>: the element count must be kept.\<close>

definition reshape :: "nat list \<Rightarrow> 'a tensor \<Rightarrow> error + 'a tensor" where
  "reshape s t =
     (if prod_list s = prod_list (shape t) then Inr \<lparr>shape = s, vals = vals t\<rparr>
      else Inl RuntimeError)"

text \<open>\<open>t.unsqueeze(0).expand(b, *t.shape)\<close>: \<open>b\<close> copies of \<open>t\<close> along a new first axis.\<close>

definition expand0 :: "nat \<Rightarrow> 'a tensor \<Rightarrow> 'a tensor" where
  "expand0 b t = \<lparr>shape = b # shape t, vals = concat (replicate b (vals t))\<rparr>"

text \<open>\<open>t[None]\<close>: a new first axis of length 1.\<close>

definition unsqueeze0 :: "'a tensor \<Rightarrow> 'a tensor" where
  "unsqueeze0 t = \<lparr>shape = 1 # shape t, vals = vals t\<rparr>"

subsubsection \<open>Broadcasting\<close>

text \<open>
  Shapes are aligned at their last axis; two axis lengths agree when they are equal or
  one of them is 1. The lists are handled reversed, last axis first.
\<close>

fun broadcast_rev :: "nat list \<Rightarrow> nat list \<Rightarrow> error + nat list" where
  "broadcast_rev [] ys = Inr ys"
| "broadcast_rev xs [] = Inr xs"
| "broadcast_rev (x # xs) (y # ys) =
     (if x = y \<or> y = 1 then
        (case broadcast_rev xs ys of Inl e \<Rightarrow> Inl e | Inr r \<Rightarrow> Inr (x # r))
      else if x = 1 then
        (case broadcast_rev xs ys of Inl e \<Rightarrow> Inl e | Inr r \<Rightarrow> Inr (y # r))
      else Inl RuntimeError)"

definition broadcast_shapes :: "nat list \<Rightarrow> nat list \<Rightarrow> error + nat list" where
  "broadcast_shapes s1 s2 =
     (case broadcast_rev (rev s1) (rev s2) of Inl e \<Rightarrow> Inl e | Inr r \<Rightarrow> Inr (rev r))"

text \<open>
  The index at which a tensor of shape \<open>s\<close> is read when it is broadcast and the result
  is read at \<open>idx\<close>: leading axes are dropped, an axis of length 1 is read at 0.
\<close>

definition bidx :: "nat list \<Rightarrow> nat list \<Rightarrow> nat list" where
  "bidx s idx = map2 (\<lambda>d i. if d = 1 then 0 else i) s (drop (length idx - length s) idx)"

definition binop :: "('a \<Rightarrow> 'a \<Rightarrow> 'a) \<Rightarrow> 'a tensor \<Rightarrow> 'a tensor \<Rightarrow> error + 'a tensor" where
  "binop f a b =
     (case broadcast_shapes (shape a) (shape b) of
        Inl e \<Rightarrow> Inl e
      | Inr s \<Rightarrow> Inr (tabulate s (\<lambda>idx. f (get a (bidx (shape a) idx)) (get b (bidx (shape b) idx)))))"

text \<open>\<open>src\<close> broadcast to exactly the shape \<open>s\<close> (as \<open>expand\<close> does).\<close>

definition broadcast_to :: "nat list \<Rightarrow> 'a tensor \<Rightarrow> error + 'a tensor" where
  "broadcast_to s src =
     (if broadcast_shapes s (shape src) = Inr s
      then Inr (tabulate s (\<lambda>idx. get src (bidx (shape src) idx)))
      else Inl RuntimeError)"

text \<open>
  Assignment into a view, \<open>view[...] = src\<close>: torch drops the leading axes of length 1
  of \<open>src\<close> and broadcasts the rest to the shape of the view.
\<close>

definition strip_ones :: "'a tensor \<Rightarrow> 'a tensor" where
  "strip_ones t = t\<lparr>shape := dropWhile (\<lambda>d. d = 1) (shape t)\<rparr>"

definition copy_to :: "nat list \<Rightarrow> 'a tensor \<Rightarrow> error + 'a tensor" where
  "copy_to s src =
     (if shape src = s then Inr src else broadcast_to s (strip_ones src))"

text \<open>\<open>t[n:] = src\<close>.\<close>

definition setitem_from :: "nat \<Rightarrow> 'a tensor \<Rightarrow> 'a tensor \<Rightarrow> error + 'a tensor" where
  "setitem_from n t src =
     (case shape t of
        [] \<Rightarrow> Inl IndexError
      | d # ds \<Rightarrow>
          (case copy_to ((d - n) # ds) src of
             Inl e \<Rightarrow> Inl e
           | Inr r \<Rightarrow> Inr (t\<lparr>vals := take (min n d * prod_list ds) (vals t) @ vals r\<rparr>)))"

subsubsection \<open>Elementwise operations\<close>

definition tmap :: "('a \<Rightarrow> 'b) \<Rightarrow> 'a tensor \<Rightarrow> 'b tensor" where
  "tmap f t = \<lparr>shape = shape t, vals = map f (vals t)\<rparr>"

text \<open>\<open>a += b\<close> on tensors: \<open>b\<close> is broadcast, and the result must have the shape of \<open>a\<close>.\<close>

definition iadd :: "real tensor \<Rightarrow> real tensor \<Rightarrow> error + real tensor" where
  "iadd a b =
     (case binop (+) a b of
        Inl e \<Rightarrow> Inl e
      | Inr r \<Rightarrow> if shape r = shape a then Inr r else Inl RuntimeError)"

subsection \<open>Controller state\<close>

text \<open>
  A store is a Python dict from the six location keys to lists of tensors, kept as an
  association list in insertion order.
\<close>

type_synonym store = "(string \<times> real tensor list) list"

definition get_empty_store :: store where
  "get_empty_store =
     [(''down_cross'', []), (''mid_cross'', []), (''up_cross'', []),
      (''down_self'', []), (''mid_self'', []), (''up_self'', [])]"

record controller =
  cur_step :: int
  num_att_layers :: int
  cur_att_layer :: int
  step_store :: store
  attention_store :: store

text \<open>
  \<open>AttentionControl.__init__\<close> followed by \<open>AttentionStore.__init__\<close>. The base class
  has no stores of its own; its methods never read them.
\<close>

definition init :: controller where
  "init = \<lparr>cur_step = 0, num_att_layers = - 1, cur_att_layer = 0,
            step_store = get_empty_store, attention_store = []\<rparr>"

text \<open>\<open>AttentionStore.reset\<close>.\<close>

definition reset :: "controller \<Rightarrow> controller" where
  "reset st = st\<lparr>cur_step := 0, cur_att_layer := 0,
                 step_store := get_empty_store, attention_store := []\<rparr>"

subsection \<open>The classes\<close>

record local_blend =
  alpha_layers :: "real tensor"
  threshold :: real

text \<open>
  The fields set by \<open>AttentionControlEdit.__init__\<close>. \<open>cross_replace_alpha\<close> is the
  tensor returned by \<open>ptp_utils.get_time_words_attention_alpha\<close>, which is not part of
  main.py; it is a parameter here.
\<close>

record edit_config =
  batch_size :: nat
  cross_replace_alpha :: "real tensor"
  num_self_replace :: "int \<times> int"
  local_blend :: "local_blend option"

text \<open>
  The subclasses of \<open>AttentionControlEdit\<close> with the fields their own \<open>__init__\<close> sets:
  the mapper of Replace, the mapper and alphas of Refine, the equalizer and the previous
  controller of Reweight. \<open>AbstractEdit\<close> stands for \<open>AttentionControlEdit\<close> itself.
\<close>

datatype edit_kind =
    AbstractEdit
  | AttentionReplace "real tensor"
  | AttentionRefine "int tensor" "real tensor"
  | AttentionReweight "real tensor" "edit_kind option"

datatype control_class =
    AttentionControl
  | EmptyControl
  | AttentionStore
  | AttentionControlEdit edit_config edit_kind

subsection \<open>AttentionStore\<close>

definition store_key :: "string \<Rightarrow> bool \<Rightarrow> string" where
  "store_key place_in_unet is_cross =
     place_in_unet @ ''_'' @ (if is_cross then ''cross'' else ''self'')"

text \<open>\<open>AttentionStore.forward\<close>.\<close>

definition store_forward ::
  "controller \<Rightarrow> real tensor \<Rightarrow> bool \<Rightarrow> string \<Rightarrow> error + controller \<times> real tensor" where
  "store_forward st attn is_cross place_in_unet =
     (let key = store_key place_in_unet is_cross in
      case shape_at attn 1 of
        Inl e \<Rightarrow> Inl e
      | Inr d \<Rightarrow>
          if d \<le> 32 ^ 2 then
            (case map_of (step_store st) key of
               None \<Rightarrow> Inl KeyError
             | Some items \<Rightarrow>
                 Inr (st\<lparr>step_store := AList.update key (items @ [attn]) (step_store st)\<rparr>, attn))
          else Inr (st, attn))"

text \<open>The inner loop of \<open>between_steps\<close>: \<open>acc[i] += new[i]\<close> for every \<open>i < len(acc)\<close>.\<close>

fun add_items :: "real tensor list \<Rightarrow> real tensor list \<Rightarrow> error + real tensor list" where
  "add_items [] new = Inr []"
| "add_items (a # acc) [] = Inl IndexError"
| "add_items (a # acc) (b # new) =
     (case iadd a b of
        Inl e \<Rightarrow> Inl e
      | Inr r \<Rightarrow> (case add_items acc new of Inl e \<Rightarrow> Inl e | Inr rs \<Rightarrow> Inr (r # rs)))"

text \<open>The outer loop: \<open>for key in self.attention_store\<close>.\<close>

fun add_store :: "store \<Rightarrow> store \<Rightarrow> error + store" where
  "add_store [] new = Inr []"
| "add_store ((key, acc) # rest) new =
     (case map_of new key of
        None \<Rightarrow> Inl KeyError
      | Some items \<Rightarrow>
          (case add_items acc items of
             Inl e \<Rightarrow> Inl e
           | Inr r \<Rightarrow>
               (case add_store rest new of Inl e \<Rightarrow> Inl e | Inr rs \<Rightarrow> Inr ((key, r) # rs))))"

text \<open>\<open>AttentionStore.between_steps\<close>.\<close>

definition store_between_steps :: "controller \<Rightarrow> error + controller" where
  "store_between_steps st =
     (if length (attention_store st) = 0
      then Inr (st\<lparr>attention_store := step_store st, step_store := get_empty_store\<rparr>)
      else
        (case add_store (attention_store st) (step_store st) of
           Inl e \<Rightarrow> Inl e
         | Inr acc \<Rightarrow> Inr (st\<lparr>attention_store := acc, step_store := get_empty_store\<rparr>)))"

text \<open>
  \<open>AttentionStore.get_average_attention\<close>: every tensor of the cumulative store divided
  by \<open>cur_step\<close>. Dividing by the integer 0 gives inf or nan elements (\<open>NonFinite\<close>).
\<close>

definition div_item :: "int \<Rightarrow> real tensor \<Rightarrow> error + real tensor" where
  "div_item n item =
     (if n = 0 then Inl NonFinite else Inr (tmap (\<lambda>x. x / real_of_int n) item))"

fun div_items :: "int \<Rightarrow> real tensor list \<Rightarrow> error + real tensor list" where
  "div_items n [] = Inr []"
| "div_items n (item # items) =
     (case div_item n item of
        Inl e \<Rightarrow> Inl e
      | Inr r \<Rightarrow> (case div_items n items of Inl e \<Rightarrow> Inl e | Inr rs \<Rightarrow> Inr (r # rs)))"

fun div_store :: "int \<Rightarrow> store \<Rightarrow> error + store" where
  "div_store n [] = Inr []"
| "div_store n ((key, items) # rest) =
     (case div_items n items of
        Inl e \<Rightarrow> Inl e
      | Inr r \<Rightarrow> (case div_store n rest of Inl e \<Rightarrow> Inl e | Inr rs \<Rightarrow> Inr ((key, r) # rs)))"

definition get_average_attention :: "controller \<Rightarrow> error + store" where
  "get_average_attention st = div_store (cur_step st) (attention_store st)"

subsection \<open>AttentionControlEdit and its subclasses\<close>

text \<open>\<open>torch.einsum('hpw,bwn->bhpn', attn_base, mapper)\<close>.\<close>

definition einsum_hpw_bwn :: "real tensor \<Rightarrow> real tensor \<Rightarrow> error + real tensor" where
  "einsum_hpw_bwn attn_base mapper =
     (case (shape attn_base, shape mapper) of
        ([h, p, w], [b, w', n]) \<Rightarrow>
          if w = w' then
            Inr (tabulate [b, h, p, n]
                  (\<lambda>i. \<Sum>k\<leftarrow>[0..<w]. get attn_base [i ! 1, i ! 2, k] * get mapper [i ! 0, k, i ! 3]))
          else Inl RuntimeError
      | _ \<Rightarrow> Inl RuntimeError)"

text \<open>
  \<open>attn_base[:, :, mapper].permute(2, 0, 1, 3)\<close> of Refine: the last axis of \<open>attn_base\<close>
  is read at the positions the integer tensor \<open>mapper\<close> holds (negative ones count
  from the end).
\<close>

definition py_index :: "nat \<Rightarrow> int \<Rightarrow> nat" where
  "py_index d i = nat (if i < 0 then i + int d else i)"

definition gather_permute :: "real tensor \<Rightarrow> int tensor \<Rightarrow> error + real tensor" where
  "gather_permute attn_base mapper =
     (case (shape attn_base, shape mapper) of
        ([h, p, w], [b, n]) \<Rightarrow>
          if list_all (\<lambda>i. - int w \<le> i \<and> i < int w) (vals mapper) then
            Inr (tabulate [b, h, p, n]
                  (\<lambda>i. get attn_base [i ! 1, i ! 2, py_index w (get mapper [i ! 0, i ! 3])]))
          else Inl IndexError
      | _ \<Rightarrow> Inl RuntimeError)"

text \<open>\<open>attn_base[None, :, :, :]\<close> and \<open>equalizer[:, None, None, :]\<close> of Reweight.\<close>

definition none_view :: "'a tensor \<Rightarrow> error + 'a tensor" where
  "none_view t = (if length (shape t) < 3 then Inl IndexError else Inr (unsqueeze0 t))"

definition equalizer_view :: "'a tensor \<Rightarrow> error + 'a tensor" where
  "equalizer_view e =
     (case shape e of
        d0 # d1 # ds \<Rightarrow> Inr \<lparr>shape = d0 # 1 # 1 # d1 # ds, vals = vals e\<rparr>
      | _ \<Rightarrow> Inl IndexError)"

text \<open>
  \<open>replace_cross_attention\<close>, by class: abstract in \<open>AttentionControlEdit\<close>, overridden in
  Replace, Refine and Reweight.
\<close>

fun replace_cross_attention :: "edit_kind \<Rightarrow> real tensor \<Rightarrow> real tensor \<Rightarrow> error + real tensor" where
  "replace_cross_attention AbstractEdit attn_base att_replace = Inl NotImplementedError"
| "replace_cross_attention (AttentionReplace mapper) attn_base att_replace =
     einsum_hpw_bwn attn_base mapper"
| "replace_cross_attention (AttentionRefine mapper alphas) attn_base att_replace =
     (case gather_permute attn_base mapper of
        Inl e \<Rightarrow> Inl e
      | Inr attn_base_replace \<Rightarrow>
          (case binop (*) attn_base_replace alphas of
             Inl e \<Rightarrow> Inl e
           | Inr l \<Rightarrow>
               (case binop (*) att_replace (tmap (\<lambda>x. 1 - x) alphas) of
                  Inl e \<Rightarrow> Inl e
                | Inr r \<Rightarrow> binop (+) l r)))"
| "replace_cross_attention (AttentionReweight equalizer prev_controller) attn_base att_replace =
     (case (case prev_controller of
              None \<Rightarrow> Inr attn_base
            | Some c \<Rightarrow> replace_cross_attention c attn_base att_replace) of
        Inl e \<Rightarrow> Inl e
      | Inr attn_base' \<Rightarrow>
          (case none_view attn_base' of
             Inl e \<Rightarrow> Inl e
           | Inr l \<Rightarrow>
               (case equalizer_view equalizer of
                  Inl e \<Rightarrow> Inl e
                | Inr r \<Rightarrow> binop (*) l r)))"

text \<open>\<open>replace_self_attention\<close>, the same for every subclass.\<close>

definition replace_self_attention :: "real tensor \<Rightarrow> real tensor \<Rightarrow> error + real tensor" where
  "replace_self_attention attn_base att_replace =
     (case shape_at att_replace 2 of
        Inl e \<Rightarrow> Inl e
      | Inr q \<Rightarrow>
          if q \<le> 16 ^ 2 then
            (case shape_at att_replace 0 of
               Inl e \<Rightarrow> Inl e
             | Inr b \<Rightarrow> Inr (expand0 b attn_base))
          else Inr att_replace)"

text \<open>
  The blend of the cross-attention branch of \<open>forward\<close>:
  \<open>replace_cross_attention(base, repl) * alpha_words + (1 - alpha_words) * repl\<close>.
\<close>

definition cross_blend ::
  "edit_config \<Rightarrow> edit_kind \<Rightarrow> int \<Rightarrow> real tensor \<Rightarrow> real tensor \<Rightarrow> error + real tensor" where
  "cross_blend cfg kind step attn_base attn_repalce =
     (case select0 step (cross_replace_alpha cfg) of
        Inl e \<Rightarrow> Inl e
      | Inr alpha_words \<Rightarrow>
          (case replace_cross_attention kind attn_base attn_repalce of
             Inl e \<Rightarrow> Inl e
           | Inr new \<Rightarrow>
               (case binop (*) new alpha_words of
                  Inl e \<Rightarrow> Inl e
                | Inr l \<Rightarrow>
                    (case binop (*) (tmap (\<lambda>x. 1 - x) alpha_words) attn_repalce of
                       Inl e \<Rightarrow> Inl e
                     | Inr r \<Rightarrow> binop (+) l r))))"

text \<open>The body of the \<open>if\<close> of \<open>AttentionControlEdit.forward\<close>.\<close>

definition edit_attention ::
  "edit_config \<Rightarrow> edit_kind \<Rightarrow> int \<Rightarrow> real tensor \<Rightarrow> bool \<Rightarrow> error + real tensor" where
  "edit_attention cfg kind step attn is_cross =
     (case shape_at attn 0 of
        Inl e \<Rightarrow> Inl e
      | Inr d0 \<Rightarrow>
          if batch_size cfg = 0 then Inl ZeroDivisionError
          else
            (let h = d0 div batch_size cfg in
             case reshape (batch_size cfg # h # tl (shape attn)) attn of
               Inl e \<Rightarrow> Inl e
             | Inr attn4 \<Rightarrow>
                 (case select0 0 attn4 of
                    Inl e \<Rightarrow> Inl e
                  | Inr attn_base \<Rightarrow>
                      (case slice_from 1 attn4 of
                         Inl e \<Rightarrow> Inl e
                       | Inr attn_repalce \<Rightarrow>
                           (case (if is_cross
                                  then cross_blend cfg kind step attn_base attn_repalce
                                  else replace_self_attention attn_base attn_repalce) of
                              Inl e \<Rightarrow> Inl e
                            | Inr new \<Rightarrow>
                                (case setitem_from 1 attn4 new of
                                   Inl e \<Rightarrow> Inl e
                                 | Inr attn4' \<Rightarrow>
                                     reshape ((batch_size cfg * h) # drop 2 (shape attn4')) attn4'))))))"

definition in_self_replace_window :: "edit_config \<Rightarrow> int \<Rightarrow> bool" where
  "in_self_replace_window cfg step \<longleftrightarrow>
     fst (num_self_replace cfg) \<le> step \<and> step < snd (num_self_replace cfg)"

text \<open>
  \<open>AttentionControlEdit.forward\<close>. The parent's \<open>forward\<close> runs first and appends the
  tensor it is given to the step buffer. The edit then writes into that same tensor:
  \<open>reshape\<close> of a contiguous tensor is a view, and \<open>attn[1:] = ...\<close> assigns in place. The
  buffered entry therefore holds the edited values, which is what \<open>store_forward\<close> on the
  edited tensor records (the edit keeps the length of the second axis, which decides
  whether the tensor is buffered).
\<close>

definition edit_forward ::
  "edit_config \<Rightarrow> edit_kind \<Rightarrow> controller \<Rightarrow> real tensor \<Rightarrow> bool \<Rightarrow> string
     \<Rightarrow> error + controller \<times> real tensor" where
  "edit_forward cfg kind st attn is_cross place_in_unet =
     (case store_forward st attn is_cross place_in_unet of
        Inl e \<Rightarrow> Inl e
      | Inr (st1, _) \<Rightarrow>
          if is_cross \<or> in_self_replace_window cfg (cur_step st) then
            (case edit_attention cfg kind (cur_step st) attn is_cross of
               Inl e \<Rightarrow> Inl e
             | Inr attn' \<Rightarrow>
                 (case store_forward st attn' is_cross place_in_unet of
                    Inl e \<Rightarrow> Inl e
                  | Inr (st2, _) \<Rightarrow> Inr (st2, attn')))
          else Inr (st1, attn))"

subsection \<open>The interception protocol\<close>

text \<open>\<open>forward\<close>, by class.\<close>

fun forward ::
  "control_class \<Rightarrow> controller \<Rightarrow> real tensor \<Rightarrow> bool \<Rightarrow> string
     \<Rightarrow> error + controller \<times> real tensor" where
  "forward AttentionControl st attn is_cross place_in_unet = Inl NotImplementedError"
| "forward EmptyControl st attn is_cross place_in_unet = Inr (st, attn)"
| "forward AttentionStore st attn is_cross place_in_unet =
     store_forward st attn is_cross place_in_unet"
| "forward (AttentionControlEdit cfg kind) st attn is_cross place_in_unet =
     edit_forward cfg kind st attn is_cross place_in_unet"

text \<open>\<open>between_steps\<close>, by class: a no-op unless the class is or inherits \<open>AttentionStore\<close>.\<close>

fun between_steps :: "control_class \<Rightarrow> controller \<Rightarrow> error + controller" where
  "between_steps AttentionControl st = Inr st"
| "between_steps EmptyControl st = Inr st"
| "between_steps AttentionStore st = store_between_steps st"
| "between_steps (AttentionControlEdit cfg kind) st = store_between_steps st"

text \<open>The module constant, and the property \<open>num_uncond_att_layers\<close> for either value of it.\<close>

definition LOW_RESOURCE :: bool where
  "LOW_RESOURCE = False"

definition num_uncond_att_layers :: "bool \<Rightarrow> controller \<Rightarrow> int" where
  "num_uncond_att_layers low_resource st = (if low_resource then num_att_layers st else 0)"

text \<open>The first statement of \<open>__call__\<close>: the transform, on the whole tensor or on its second half.\<close>

definition call_transform ::
  "bool \<Rightarrow> control_class \<Rightarrow> controller \<Rightarrow> real tensor \<Rightarrow> bool \<Rightarrow> string
     \<Rightarrow> error + controller \<times> real tensor" where
  "call_transform low_resource cls st attn is_cross place_in_unet =
     (if cur_att_layer st \<ge> num_uncond_att_layers low_resource st then
        if low_resource then forward cls st attn is_cross place_in_unet
        else
          (case shape_at attn 0 of
             Inl e \<Rightarrow> Inl e
           | Inr h \<Rightarrow>
               (case slice_from (h div 2) attn of
                  Inl e \<Rightarrow> Inl e
                | Inr half \<Rightarrow>
                    (case forward cls st half is_cross place_in_unet of
                       Inl e \<Rightarrow> Inl e
                     | Inr (st1, out) \<Rightarrow>
                         (case setitem_from (h div 2) attn out of
                            Inl e \<Rightarrow> Inl e
                          | Inr attn' \<Rightarrow> Inr (st1, attn')))))
      else Inr (st, attn))"

text \<open>\<open>AttentionControl.__call__\<close>.\<close>

definition call ::
  "bool \<Rightarrow> control_class \<Rightarrow> controller \<Rightarrow> real tensor \<Rightarrow> bool \<Rightarrow> string
     \<Rightarrow> error + controller \<times> real tensor" where
  "call low_resource cls st attn is_cross place_in_unet =
     (case call_transform low_resource cls st attn is_cross place_in_unet of
        Inl e \<Rightarrow> Inl e
      | Inr (st1, attn') \<Rightarrow>
          (let st2 = st1\<lparr>cur_att_layer := cur_att_layer st1 + 1\<rparr> in
           if cur_att_layer st2 = num_att_layers st2 + num_uncond_att_layers low_resource st2 then
             (case between_steps cls (st2\<lparr>cur_att_layer := 0, cur_step := cur_step st2 + 1\<rparr>) of
                Inl e \<Rightarrow> Inl e
              | Inr st3 \<Rightarrow> Inr (st3, attn'))
           else Inr (st2, attn')))"

text \<open>\<open>attn[:h // 2]\<close>, the first half of the batch axis.\<close>

definition first_half :: "'a tensor \<Rightarrow> error + 'a tensor" where
  "first_half t = (case shape_at t 0 of Inl e \<Rightarrow> Inl e | Inr h \<Rightarrow> slice_upto (h div 2) t)"


text \<open>
  The states a controller can be in: after construction, after
  \<open>register_attention_control\<close> has assigned \<open>num_att_layers\<close>, after an interception
  that returned, and after \<open>reset\<close>.
\<close>

inductive reachable :: "bool \<Rightarrow> control_class \<Rightarrow> controller \<Rightarrow> bool"
  for low_resource :: bool and cls :: control_class where
  reach_init: "reachable low_resource cls init"
| reach_layers: "reachable low_resource cls st \<Longrightarrow> reachable low_resource cls (st\<lparr>num_att_layers := n\<rparr>)"
| reach_call: "reachable low_resource cls st
     \<Longrightarrow> call low_resource cls st attn is_cross place_in_unet = Inr (st', attn')
     \<Longrightarrow> reachable low_resource cls st'"
| reach_reset: "reachable low_resource cls st \<Longrightarrow> reachable low_resource cls (reset st)"

subsection \<open>Construction of an editing controller\<close>

text \<open>\<open>int(x)\<close> on a float: truncation towards zero.\<close>

definition py_int :: "real \<Rightarrow> int" where
  "py_int x = (if x < 0 then \<lceil>x\<rceil> else \<lfloor>x\<rfloor>)"

text \<open>The argument \<open>self_replace_steps\<close>: a float or a pair of floats.\<close>

datatype replace_steps = Fraction real | Window real real

definition self_replace_window :: "int \<Rightarrow> replace_steps \<Rightarrow> int \<times> int" where
  "self_replace_window num_steps self_replace_steps =
     (let (lo, hi) = (case self_replace_steps of
                        Fraction f \<Rightarrow> (0, f)
                      | Window a b \<Rightarrow> (a, b))
      in (py_int (real_of_int num_steps * lo), py_int (real_of_int num_steps * hi)))"

text \<open>
  \<open>AttentionControlEdit.__init__\<close>; \<open>n_prompts\<close> is \<open>len(prompts)\<close> and \<open>alpha\<close> the result
  of \<open>ptp_utils.get_time_words_attention_alpha\<close>.
\<close>

definition edit_init ::
  "nat \<Rightarrow> int \<Rightarrow> real tensor \<Rightarrow> replace_steps \<Rightarrow> local_blend option \<Rightarrow> edit_config" where
  "edit_init n_prompts num_steps alpha self_replace_steps lb =
     \<lparr>batch_size = n_prompts, cross_replace_alpha = alpha,
      num_self_replace = self_replace_window num_steps self_replace_steps,
      local_blend = lb\<rparr>"

subsection \<open>get_equalizer\<close>

text \<open>
  \<open>equalizer[:, inds] = values\<close> for a tensor of shape \<open>(v, n)\<close> and \<open>v\<close> values: the
  values are broadcast to the shape \<open>(v, len(inds))\<close> of the selection, aligned at the
  last axis, so value \<open>j\<close> goes to column \<open>inds[j]\<close> of every row (or the only value to
  every selected column). Columns are written in order.
\<close>

definition set_columns :: "nat list \<Rightarrow> real list \<Rightarrow> real tensor \<Rightarrow> error + real tensor" where
  "set_columns inds values equalizer =
     (case shape equalizer of
        [v, n] \<Rightarrow>
          if length values \<noteq> length inds \<and> length values \<noteq> 1 then Inl RuntimeError
          else if \<not> list_all (\<lambda>c. c < n) inds then Inl IndexError
          else
            (let vs = (if length values = length inds then values
                       else replicate (length inds) (hd values))
             in Inr (tabulate [v, n]
                      (\<lambda>idx. case map_of (rev (zip inds vs)) (idx ! 1) of
                                None \<Rightarrow> get equalizer idx
                              | Some x \<Rightarrow> x)))
      | _ \<Rightarrow> Inl IndexError)"

text \<open>The argument \<open>word_select\<close>: one word (an int or a str) or a tuple of words.\<close>

datatype 'w word_select = Single 'w | Several "'w list"

fun equalizer_loop :: "('w \<Rightarrow> nat list) \<Rightarrow> 'w list \<Rightarrow> real list \<Rightarrow> real tensor \<Rightarrow> error + real tensor" where
  "equalizer_loop get_word_inds [] values equalizer = Inr equalizer"
| "equalizer_loop get_word_inds (word # rest) values equalizer =
     (case set_columns (get_word_inds word) values equalizer of
        Inl e \<Rightarrow> Inl e
      | Inr equalizer' \<Rightarrow> equalizer_loop get_word_inds rest values equalizer')"

text \<open>
  \<open>get_equalizer\<close>. \<open>get_word_inds word\<close> stands for
  \<open>ptp_utils.get_word_inds(text, word, tokenizer)\<close>, which is not part of main.py.
\<close>

definition get_equalizer :: "('w \<Rightarrow> nat list) \<Rightarrow> 'w word_select \<Rightarrow> real list \<Rightarrow> error + real tensor" where
  "get_equalizer get_word_inds word_select values =
     (let words = (case word_select of Single w \<Rightarrow> [w] | Several ws \<Rightarrow> ws);
          equalizer = tabulate [length values, 77] (\<lambda>_. 1)
      in equalizer_loop get_word_inds words values equalizer)"

subsection \<open>LocalBlend\<close>

definition MAX_NUM_WORDS :: nat where
  "MAX_NUM_WORDS = 77"













text \<open>Line 51: \<open>x_t = x_t[:1] + mask * (x_t - x_t[:1])\<close>, with \<open>blend\<close> for the mask.\<close>

definition composite :: "real tensor \<Rightarrow> real tensor \<Rightarrow> error + real tensor" where
  "composite blend x_t =
     (case slice_upto 1 x_t of
        Inl e \<Rightarrow> Inl e
      | Inr x0 \<Rightarrow>
          (case binop (-) x_t x0 of
             Inl e \<Rightarrow> Inl e
           | Inr diff \<Rightarrow>
               (case binop (*) blend diff of
                  Inl e \<Rightarrow> Inl e
                | Inr md \<Rightarrow> binop (+) x0 md)))"



subsection \<open>Construction of a LocalBlend\<close>

text \<open>
  \<open>LocalBlend.__init__\<close>. \<open>word_inds ! i\<close> holds, for prompt \<open>i\<close> of
  \<open>zip(prompts, words)\<close>, the token positions \<open>ptp_utils.get_word_inds\<close> returns for each of
  its words (\<open>get_word_inds\<close> is not part of main.py); \<open>alpha_layers[i, :, :, :, :, ind] = 1\<close>
  raises IndexError for a position beyond the 77 tokens.
\<close>

definition local_blend_init :: "nat \<Rightarrow> nat list list list \<Rightarrow> real \<Rightarrow> error + local_blend" where
  "local_blend_init n_prompts word_inds th =
     (let used = take n_prompts word_inds in
      if \<not> list_all (list_all (list_all (\<lambda>ind. ind < MAX_NUM_WORDS))) used then Inl IndexError
      else Inr \<lparr>alpha_layers =
                  tabulate [n_prompts, 1, 1, 1, 1, MAX_NUM_WORDS]
                    (\<lambda>idx. if idx ! 0 < length used \<and> idx ! 5 \<in> set (concat (used ! (idx ! 0)))
                           then 1 else 0),
                threshold = th\<rparr>)"

subsection \<open>Example inputs\<close>

definition ex_attn :: "real tensor" where
  "ex_attn = \<lparr>shape = [2, 1, 2], vals = [1, 2, 3, 4]\<rparr>"

definition ex_state :: controller where
  "ex_state = init\<lparr>num_att_layers := 1\<rparr>"

definition ex_state' :: controller where
  "ex_state' = \<lparr>cur_step = 1, num_att_layers = 1, cur_att_layer = 0,
                 step_store = get_empty_store,
                 attention_store =
                   AList.update ''down_cross'' [\<lparr>shape = [1, 1, 2], vals = [3, 4]\<rparr>] get_empty_store\<rparr>"

subsection \<open>Invariants\<close>

text \<open>The cumulative store is empty until a step has been completed.\<close>

definition step_inv :: "controller \<Rightarrow> bool" where
  "step_inv st \<longleftrightarrow> 0 \<le> cur_step st \<and> (attention_store st \<noteq> [] \<longrightarrow> 1 \<le> cur_step st)"

text \<open>Every buffered tensor passed the test \<open>attn.shape[1] <= 32 ** 2\<close>.\<close>

definition small :: "real tensor \<Rightarrow> bool" where
  "small t \<longleftrightarrow> (case shape_at t 1 of Inl e \<Rightarrow> False | Inr d \<Rightarrow> d \<le> 32 ^ 2)"

definition store_small :: "store \<Rightarrow> bool" where
  "store_small s \<longleftrightarrow> (\<forall>(key, items) \<in> set s. \<forall>t \<in> set items. small t)"

definition ex_big :: "real tensor" where
  "ex_big = \<lparr>shape = [2, 1025, 1], vals = replicate 2050 0\<rparr>"

subsection \<open>What one step records\<close>



definition store_keys :: "string list" where
  "store_keys = map fst get_empty_store"



definition scale :: "nat \<Rightarrow> real tensor \<Rightarrow> real tensor" where
  "scale n t = tmap (\<lambda>x. real n * x) t"



subsection \<open>The self-attention policy in the words of the specification\<close>



definition ex_cfg :: edit_config where
  "ex_cfg = edit_init 2 10 \<lparr>shape = [11, 1, 1, 1, 2], vals = replicate 22 1\<rparr> (Window 0 (4 / 10)) None"

definition ex_id :: "real tensor" where
  "ex_id = \<lparr>shape = [1, 2, 2], vals = [1, 0, 0, 1]\<rparr>"

definition ex_alpha_words :: "real tensor" where
  "ex_alpha_words = \<lparr>shape = [1, 1, 1, 2], vals = [1, 1]\<rparr>"

definition ex_base :: "real tensor" where
  "ex_base = \<lparr>shape = [1, 1, 77], vals = replicate 77 3\<rparr>"

definition ex_id77 :: "real tensor" where
  "ex_id77 = tabulate [1, 77, 77] (\<lambda>idx. if idx ! 1 = idx ! 2 then 1 else 0)"

definition ex_word_inds :: "string \<Rightarrow> nat list" where
  "ex_word_inds word = (if word = ''castle'' then [2] else [])"





section \<open>Properties\<close>

subsection \<open>Indices\<close>

lemma flat_index_bound:
  "valid_idx s idx \<Longrightarrow> flat_index s idx < prod_list s"
proof (induction s idx rule: valid_idx.induct)
  case (2 d ds i "is")
  then have a: "i < d" and b: "flat_index ds is < prod_list ds" by simp_all
  have "i * prod_list ds + flat_index ds is < (i + 1) * prod_list ds" using b by simp
  also have "\<dots> \<le> d * prod_list ds" using a by (intro mult_le_mono1) simp
  finally show ?case by simp
qed simp_all

lemma flat_index_first_bound:
  assumes "valid_idx (d # ds) (i # is)" "i < k"
  shows "flat_index (d # ds) (i # is) < k * prod_list ds"
proof -
  have b: "flat_index ds is < prod_list ds" using assms(1) by (simp add: flat_index_bound)
  have "i * prod_list ds + flat_index ds is < (i + 1) * prod_list ds" using b by simp
  also have "\<dots> \<le> k * prod_list ds" using assms(2) by (intro mult_le_mono1) simp
  finally show ?thesis by simp
qed

subsection \<open>What an interception leaves alone\<close>

lemma store_forward_frame:
  assumes "store_forward st attn is_cross place = Inr (st', attn')"
  shows "attn' = attn \<and> cur_step st' = cur_step st \<and> cur_att_layer st' = cur_att_layer st
         \<and> num_att_layers st' = num_att_layers st \<and> attention_store st' = attention_store st"
  using assms
  by (auto simp: store_forward_def Let_def split: sum.splits if_splits option.splits)

lemma edit_forward_frame:
  assumes "edit_forward cfg kind st attn is_cross place = Inr (st', attn')"
  shows "cur_step st' = cur_step st \<and> cur_att_layer st' = cur_att_layer st
         \<and> num_att_layers st' = num_att_layers st \<and> attention_store st' = attention_store st"
  using assms
  by (auto simp: edit_forward_def split: sum.splits if_splits prod.splits dest: store_forward_frame)

lemma forward_frame:
  assumes "forward cls st attn is_cross place = Inr (st', attn')"
  shows "cur_step st' = cur_step st \<and> cur_att_layer st' = cur_att_layer st
         \<and> num_att_layers st' = num_att_layers st \<and> attention_store st' = attention_store st"
  using assms
  by (cases cls) (auto dest: store_forward_frame edit_forward_frame)

lemma call_transform_frame:
  assumes "call_transform lr cls st attn is_cross place = Inr (st', attn')"
  shows "cur_step st' = cur_step st \<and> cur_att_layer st' = cur_att_layer st
         \<and> num_att_layers st' = num_att_layers st \<and> attention_store st' = attention_store st"
  using assms
  by (auto simp: call_transform_def split: sum.splits if_splits prod.splits dest: forward_frame)

lemma store_between_steps_frame:
  assumes "store_between_steps st = Inr st'"
  shows "cur_step st' = cur_step st \<and> cur_att_layer st' = cur_att_layer st
         \<and> num_att_layers st' = num_att_layers st"
  using assms by (auto simp: store_between_steps_def split: sum.splits if_splits)

lemma between_steps_frame:
  assumes "between_steps cls st = Inr st'"
  shows "cur_step st' = cur_step st \<and> cur_att_layer st' = cur_att_layer st
         \<and> num_att_layers st' = num_att_layers st"
  using assms by (cases cls) (auto dest: store_between_steps_frame)

lemma ex_call:
  "call False AttentionStore ex_state ex_attn True ''down'' = Inr (ex_state', ex_attn)"
  by (simp add: call_def call_transform_def init_def num_uncond_att_layers_def shape_at_def
      slice_from_def store_forward_def store_key_def get_empty_store_def setitem_from_def
      copy_to_def store_between_steps_def Let_def ex_attn_def ex_state_def ex_state'_def)

subsection \<open>Layer and step counters\<close>

lemma call_result:
  assumes "call lr cls st attn is_cross place = Inr (st', attn')"
  shows "\<exists>st1. call_transform lr cls st attn is_cross place = Inr (st1, attn')
           \<and> cur_att_layer st1 = cur_att_layer st \<and> cur_step st1 = cur_step st
           \<and> num_att_layers st' = num_att_layers st
           \<and> (if cur_att_layer st + 1 = num_att_layers st + num_uncond_att_layers lr st
               then between_steps cls (st1\<lparr>cur_att_layer := 0, cur_step := cur_step st + 1\<rparr>) = Inr st'
                    \<and> cur_att_layer st' = 0 \<and> cur_step st' = cur_step st + 1
               else st' = st1\<lparr>cur_att_layer := cur_att_layer st + 1\<rparr>
                    \<and> cur_att_layer st' = cur_att_layer st + 1 \<and> cur_step st' = cur_step st)"
proof -
  from assms obtain st1 where
    t: "call_transform lr cls st attn is_cross place = Inr (st1, attn')"
    by (auto simp: call_def Let_def split: sum.splits prod.splits if_splits)
  note f = call_transform_frame[OF t]
  have n: "num_uncond_att_layers lr st1 = num_uncond_att_layers lr st"
    using f by (simp add: num_uncond_att_layers_def)
  show ?thesis
  proof (cases "cur_att_layer st + 1 = num_att_layers st + num_uncond_att_layers lr st")
    case True
    with assms t f n have b: "between_steps cls (st1\<lparr>cur_att_layer := 0, cur_step := cur_step st + 1\<rparr>) = Inr st'"
      by (auto simp: call_def Let_def num_uncond_att_layers_def split: sum.splits if_splits)
    from between_steps_frame[OF b] True t f b show ?thesis by auto
  next
    case False
    with assms t f n have "st' = st1\<lparr>cur_att_layer := cur_att_layer st + 1\<rparr>"
      by (auto simp: call_def Let_def num_uncond_att_layers_def split: sum.splits if_splits)
    with False t f show ?thesis by auto
  qed
qed

text \<open>
  Claim C8. An interception that returns has run the transform (which leaves the
  counters alone) and then counted the layer. If the incremented layer counter equals
  \<open>num_att_layers + num_uncond_att_layers\<close>, the layer counter is 0 afterwards, the step
  counter is one higher, and the final state is the result of one \<open>between_steps\<close> on
  the state with the counters so set. Otherwise the final state is the state after the
  transform with the layer counter one higher: no reset, no step, no \<open>between_steps\<close>.
\<close>

theorem call_counts_layers:
  assumes "call lr cls st attn is_cross place = Inr (st', attn')"
  shows "\<exists>st1. call_transform lr cls st attn is_cross place = Inr (st1, attn')
           \<and> cur_att_layer st1 = cur_att_layer st \<and> cur_step st1 = cur_step st
           \<and> num_att_layers st' = num_att_layers st
           \<and> (if cur_att_layer st + 1 = num_att_layers st + num_uncond_att_layers lr st
               then between_steps cls (st1\<lparr>cur_att_layer := 0, cur_step := cur_step st + 1\<rparr>) = Inr st'
                    \<and> cur_att_layer st' = 0 \<and> cur_step st' = cur_step st + 1
               else st' = st1\<lparr>cur_att_layer := cur_att_layer st + 1\<rparr>
                    \<and> cur_att_layer st' = cur_att_layer st + 1 \<and> cur_step st' = cur_step st)"
  using call_result[OF assms] .

theorem call_counts_layers_witness:
  "call False AttentionStore ex_state ex_attn True ''down'' = Inr (ex_state', ex_attn)
   \<and> cur_att_layer ex_state + 1 = num_att_layers ex_state + num_uncond_att_layers False ex_state
   \<and> (\<exists>st1. call_transform False AttentionStore ex_state ex_attn True ''down'' = Inr (st1, ex_attn)
         \<and> between_steps AttentionStore (st1\<lparr>cur_att_layer := 0, cur_step := cur_step ex_state + 1\<rparr>)
             = Inr ex_state')
   \<and> cur_att_layer ex_state' = 0 \<and> cur_step ex_state' = cur_step ex_state + 1"
proof -
  have t: "cur_att_layer ex_state + 1 = num_att_layers ex_state + num_uncond_att_layers False ex_state"
    by (simp add: ex_state_def init_def num_uncond_att_layers_def)
  show ?thesis
    using call_counts_layers[OF ex_call] ex_call t by auto
qed

subsection \<open>Abstract methods\<close>

text \<open>
  Claim C9. \<open>forward\<close> of the base class \<open>AttentionControl\<close> and
  \<open>replace_cross_attention\<close> of the editing base class \<open>AttentionControlEdit\<close> raise
  NotImplementedError for every argument; they return no value.
\<close>

theorem abstract_methods_raise:
  "forward AttentionControl st attn is_cross place_in_unet = Inl NotImplementedError
   \<and> replace_cross_attention AbstractEdit attn_base att_replace = Inl NotImplementedError"
  by simp

subsection \<open>The first half of the batch axis\<close>

lemma setitem_from_prefix:
  fixes t :: "'a tensor"
  assumes "wf_tensor t" "setitem_from n t src = Inr t'" "n \<le> hd (shape t)"
  shows "shape t' = shape t \<and> take (n * prod_list (tl (shape t))) (vals t') = take (n * prod_list (tl (shape t))) (vals t)"
proof -
  from assms(2) have "\<exists>d ds rv. shape t = d # ds \<and> shape t' = shape t
      \<and> vals t' = take (min n d * prod_list ds) (vals t) @ rv"
    by (cases "shape t"; cases "copy_to ((hd (shape t) - n) # tl (shape t)) src")
       (auto simp: setitem_from_def)
  then obtain d ds rv where s: "shape t = d # ds" and s': "shape t' = shape t"
    and t': "vals t' = take (min n d * prod_list ds) (vals t) @ rv"
    by blast
  have "n * prod_list ds \<le> length (vals t)"
    using assms(1,3) s by (simp add: wf_tensor_def)
  then show ?thesis using s s' t' assms(3) by (simp add: min_absorb1)
qed

lemma call_transform_prefix:
  assumes "wf_tensor attn" "call_transform False cls st attn is_cross place = Inr (st1, attn')"
  shows "shape attn' = shape attn \<and>
         take (hd (shape attn) div 2 * prod_list (tl (shape attn))) (vals attn')
           = take (hd (shape attn) div 2 * prod_list (tl (shape attn))) (vals attn)"
proof (cases "cur_att_layer st \<ge> 0")
  case False
  with assms(2) show ?thesis by (simp add: call_transform_def num_uncond_att_layers_def)
next
  case True
  with assms(2) obtain h out where h: "shape_at attn 0 = Inr h"
    and s: "setitem_from (h div 2) attn out = Inr attn'"
    by (auto simp: call_transform_def num_uncond_att_layers_def split: sum.splits prod.splits)
  from h have "h = hd (shape attn)"
    by (cases "shape attn") (auto simp: shape_at_def split: if_splits)
  with setitem_from_prefix[OF assms(1) s] show ?thesis by simp
qed

text \<open>
  Claim C5. In standard mode (\<open>LOW_RESOURCE\<close> is \<open>False\<close>) an interception that returns
  gives back a tensor of the shape of its input whose first half \<open>attn[:h // 2]\<close> is the
  first half of the input, element for element, whatever the class of the controller:
  the transform has been given \<open>attn[h // 2:]\<close> and its result assigned to
  \<open>attn[h // 2:]\<close> only.
\<close>

theorem call_keeps_first_half:
  assumes "wf_tensor attn"
    and "call LOW_RESOURCE cls st attn is_cross place_in_unet = Inr (st', attn')"
  shows "shape attn' = shape attn
       \<and> first_half attn' = first_half attn
       \<and> (\<forall>i is. valid_idx (shape attn) (i # is) \<and> i < hd (shape attn) div 2
              \<longrightarrow> get attn' (i # is) = get attn (i # is))
       \<and> (0 \<le> cur_att_layer st \<longrightarrow>
            (\<exists>half st1 out. slice_from (hd (shape attn) div 2) attn = Inr half
                \<and> forward cls st half is_cross place_in_unet = Inr (st1, out)
                \<and> setitem_from (hd (shape attn) div 2) attn out = Inr attn'))"
proof -
  from assms(2) obtain st1 where
    t: "call_transform False cls st attn is_cross place_in_unet = Inr (st1, attn')"
    by (auto simp: call_def Let_def LOW_RESOURCE_def split: sum.splits prod.splits if_splits)
  note p = call_transform_prefix[OF assms(1) t]
  have 1: "shape attn' = shape attn" using p by simp
  have 2: "first_half attn' = first_half attn"
    using p by (cases "shape attn") (auto simp: first_half_def shape_at_def slice_upto_def min_absorb1)
  have 3: "\<forall>i is. valid_idx (shape attn) (i # is) \<and> i < hd (shape attn) div 2
           \<longrightarrow> get attn' (i # is) = get attn (i # is)"
  proof (intro allI impI)
    fix i "is"
    assume a: "valid_idx (shape attn) (i # is) \<and> i < hd (shape attn) div 2"
    then obtain d ds where s: "shape attn = d # ds" by (cases "shape attn") auto
    let ?k = "d div 2 * prod_list ds"
    have lt: "flat_index (d # ds) (i # is) < ?k"
      using a s flat_index_first_bound[of d ds i "is" "d div 2"] by simp
    have "vals attn' ! flat_index (d # ds) (i # is) = take ?k (vals attn') ! flat_index (d # ds) (i # is)"
      using lt by simp
    also have "\<dots> = take ?k (vals attn) ! flat_index (d # ds) (i # is)"
      using p s by simp
    also have "\<dots> = vals attn ! flat_index (d # ds) (i # is)"
      using lt by simp
    finally show "get attn' (i # is) = get attn (i # is)"
      using p s by (simp add: get_def)
  qed
  have 4: "0 \<le> cur_att_layer st \<longrightarrow>
            (\<exists>half st1 out. slice_from (hd (shape attn) div 2) attn = Inr half
                \<and> forward cls st half is_cross place_in_unet = Inr (st1, out)
                \<and> setitem_from (hd (shape attn) div 2) attn out = Inr attn')"
  proof
    assume "0 \<le> cur_att_layer st"
    with t obtain h half st2 out where h: "shape_at attn 0 = Inr h"
      and "slice_from (h div 2) attn = Inr half"
      and "forward cls st half is_cross place_in_unet = Inr (st2, out)"
      and "setitem_from (h div 2) attn out = Inr attn'"
      by (auto simp: call_transform_def num_uncond_att_layers_def split: sum.splits prod.splits)
    moreover from h have "h = hd (shape attn)"
      by (cases "shape attn") (auto simp: shape_at_def split: if_splits)
    ultimately show "\<exists>half st1 out. slice_from (hd (shape attn) div 2) attn = Inr half
                \<and> forward cls st half is_cross place_in_unet = Inr (st1, out)
                \<and> setitem_from (hd (shape attn) div 2) attn out = Inr attn'"
      by blast
  qed
  from 1 2 3 4 show ?thesis by blast
qed

theorem call_keeps_first_half_witness:
  "wf_tensor ex_attn
   \<and> call LOW_RESOURCE AttentionStore ex_state ex_attn True ''down'' = Inr (ex_state', ex_attn)
   \<and> valid_idx (shape ex_attn) [0, 0, 1] \<and> 0 < hd (shape ex_attn) div 2
   \<and> 0 \<le> cur_att_layer ex_state
   \<and> first_half ex_attn = Inr \<lparr>shape = [1, 1, 2], vals = [1, 2]\<rparr>
   \<and> (\<exists>half st1 out. slice_from (hd (shape ex_attn) div 2) ex_attn = Inr half
          \<and> forward AttentionStore ex_state half True ''down'' = Inr (st1, out)
          \<and> setitem_from (hd (shape ex_attn) div 2) ex_attn out = Inr ex_attn)"
proof -
  have w: "wf_tensor ex_attn" by (simp add: wf_tensor_def ex_attn_def)
  have c: "call LOW_RESOURCE AttentionStore ex_state ex_attn True ''down'' = Inr (ex_state', ex_attn)"
    using ex_call by (simp add: LOW_RESOURCE_def)
  have v: "valid_idx (shape ex_attn) [0, 0, 1] \<and> 0 < hd (shape ex_attn) div 2"
    by (simp add: ex_attn_def)
  have l: "0 \<le> cur_att_layer ex_state" by (simp add: ex_state_def init_def)
  have f: "first_half ex_attn = Inr \<lparr>shape = [1, 1, 2], vals = [1, 2]\<rparr>"
    by (simp add: first_half_def shape_at_def slice_upto_def ex_attn_def)
  show ?thesis
    using call_keeps_first_half[OF w c] w c v l f by blast
qed

subsection \<open>The average is taken over completed steps\<close>

lemma call_step_inv:
  assumes "step_inv st" "call lr cls st attn is_cross place = Inr (st', attn')"
  shows "step_inv st'"
proof -
  from call_result[OF assms(2)] obtain st1 where
    t: "call_transform lr cls st attn is_cross place = Inr (st1, attn')"
    and c: "cur_step st1 = cur_step st"
    and r: "if cur_att_layer st + 1 = num_att_layers st + num_uncond_att_layers lr st
               then between_steps cls (st1\<lparr>cur_att_layer := 0, cur_step := cur_step st + 1\<rparr>) = Inr st'
                    \<and> cur_att_layer st' = 0 \<and> cur_step st' = cur_step st + 1
               else st' = st1\<lparr>cur_att_layer := cur_att_layer st + 1\<rparr>
                    \<and> cur_att_layer st' = cur_att_layer st + 1 \<and> cur_step st' = cur_step st"
    by blast
  from call_transform_frame[OF t] have a: "attention_store st1 = attention_store st" by simp
  show ?thesis
  proof (cases "cur_att_layer st + 1 = num_att_layers st + num_uncond_att_layers lr st")
    case True
    with r have "cur_step st' = cur_step st + 1" by simp
    with assms(1) show ?thesis by (simp add: step_inv_def)
  next
    case False
    with r have "st' = st1\<lparr>cur_att_layer := cur_att_layer st + 1\<rparr>" by simp
    with a c assms(1) show ?thesis by (simp add: step_inv_def)
  qed
qed

lemma reachable_step_inv: "reachable lr cls st \<Longrightarrow> step_inv st"
proof (induction rule: reachable.induct)
  case reach_init
  show ?case by (simp add: step_inv_def init_def)
next
  case (reach_layers st n)
  then show ?case by (simp add: step_inv_def)
next
  case (reach_call st attn is_cross place_in_unet st' attn')
  then show ?case using call_step_inv by blast
next
  case (reach_reset st)
  show ?case by (simp add: step_inv_def reset_def)
qed

lemma div_items_total: "n \<noteq> 0 \<Longrightarrow> \<exists>r. div_items n items = Inr r"
  by (induction items) (auto simp: div_item_def)

lemma div_store_total: "n \<noteq> 0 \<Longrightarrow> \<exists>r. div_store n s = Inr r"
proof (induction s)
  case (Cons a s)
  obtain k items where a: "a = (k, items)" by (cases a)
  from div_items_total[OF Cons.prems, of items] obtain r where "div_items n items = Inr r" by blast
  moreover from Cons obtain rs where "div_store n s = Inr rs" by blast
  ultimately show ?case using a by simp
qed simp

lemma ex_reachable: "reachable False AttentionStore ex_state'"
proof -
  have "reachable False AttentionStore ex_state"
    unfolding ex_state_def by (rule reach_layers) (rule reach_init)
  then show ?thesis using ex_call by (rule reach_call)
qed

text \<open>
  Claim C10. In every state a controller can reach, the cumulative store is non-empty
  only if the step counter is at least 1, so \<open>get_average_attention\<close> never divides by
  zero: it returns a mapping, and while no step has been completed (\<open>cur_step = 0\<close>) that
  mapping is empty.
\<close>

theorem average_divides_by_completed_steps:
  assumes "reachable lr cls st"
  shows "(attention_store st \<noteq> [] \<longrightarrow> 1 \<le> cur_step st)
       \<and> (\<exists>avg. get_average_attention st = Inr avg)
       \<and> (cur_step st = 0 \<longrightarrow> get_average_attention st = Inr [])"
proof -
  note i = reachable_step_inv[OF assms]
  have 1: "attention_store st \<noteq> [] \<longrightarrow> 1 \<le> cur_step st" using i by (simp add: step_inv_def)
  have 3: "cur_step st = 0 \<longrightarrow> get_average_attention st = Inr []"
    using 1 by (auto simp: get_average_attention_def)
  have 2: "\<exists>avg. get_average_attention st = Inr avg"
  proof (cases "cur_step st = 0")
    case True
    with 3 show ?thesis by simp
  next
    case False
    then show ?thesis unfolding get_average_attention_def by (rule div_store_total)
  qed
  from 1 2 3 show ?thesis by blast
qed

theorem average_divides_by_completed_steps_witness:
  "reachable False AttentionStore ex_state' \<and> attention_store ex_state' \<noteq> [] \<and> 1 \<le> cur_step ex_state'
   \<and> get_average_attention ex_state' = Inr (attention_store ex_state')
   \<and> reachable False AttentionStore init \<and> cur_step init = 0 \<and> get_average_attention init = Inr []"
proof -
  have r0: "reachable False AttentionStore init" by (rule reach_init)
  have a: "get_average_attention ex_state' = Inr (attention_store ex_state')"
    by (simp add: get_average_attention_def ex_state'_def get_empty_store_def div_item_def tmap_def)
  show ?thesis
    using average_divides_by_completed_steps[OF ex_reachable]
      average_divides_by_completed_steps[OF r0] ex_reachable r0 a
    by (simp add: ex_state'_def init_def get_empty_store_def)
qed

subsection \<open>Only small maps are buffered\<close>

lemma set_update_subset: "set (AList.update k v al) \<subseteq> insert (k, v) (set al)"
  by (induction al) auto

lemma store_small_update:
  assumes "store_small s" "\<forall>t \<in> set items. small t"
  shows "store_small (AList.update key items s)"
  using assms set_update_subset[of key items s]
  unfolding store_small_def by fastforce

lemma store_small_empty: "store_small get_empty_store"
  by (simp add: store_small_def get_empty_store_def)

lemma store_forward_small:
  assumes "store_small (step_store st)" "store_forward st attn is_cross place = Inr (st', attn')"
  shows "store_small (step_store st')"
proof (cases "small attn")
  case False
  with assms show ?thesis
    by (auto simp: store_forward_def Let_def small_def split: sum.splits if_splits option.splits)
next
  case True
  show ?thesis
  proof (cases "map_of (step_store st) (store_key place is_cross)")
    case None
    with assms True show ?thesis
      by (auto simp: store_forward_def Let_def small_def split: sum.splits if_splits)
  next
    case (Some items)
    then have "(store_key place is_cross, items) \<in> set (step_store st)" by (rule map_of_SomeD)
    with assms(1) have "\<forall>t \<in> set items. small t" unfolding store_small_def by blast
    with True have "\<forall>t \<in> set (items @ [attn]). small t" by simp
    from store_small_update[OF assms(1) this] assms(2) Some True show ?thesis
      by (auto simp: store_forward_def Let_def small_def split: sum.splits if_splits)
  qed
qed

lemma edit_forward_small:
  assumes "store_small (step_store st)" "edit_forward cfg kind st attn is_cross place = Inr (st', attn')"
  shows "store_small (step_store st')"
  using assms
  by (auto simp: edit_forward_def split: sum.splits if_splits prod.splits dest: store_forward_small)

lemma forward_small:
  assumes "store_small (step_store st)" "forward cls st attn is_cross place = Inr (st', attn')"
  shows "store_small (step_store st')"
  using assms by (cases cls) (auto dest: store_forward_small edit_forward_small)

lemma call_transform_small:
  assumes "store_small (step_store st)" "call_transform lr cls st attn is_cross place = Inr (st', attn')"
  shows "store_small (step_store st')"
  using assms
  by (auto simp: call_transform_def split: sum.splits if_splits prod.splits dest: forward_small)

lemma iadd_shape: "iadd a b = Inr r \<Longrightarrow> shape r = shape a"
  by (auto simp: iadd_def split: sum.splits if_splits)

lemma iadd_small: "iadd a b = Inr r \<Longrightarrow> small a \<Longrightarrow> small r"
  by (drule iadd_shape) (auto simp: small_def shape_at_def split: if_splits)

lemma add_items_small:
  "add_items acc new = Inr r \<Longrightarrow> \<forall>t \<in> set acc. small t \<Longrightarrow> \<forall>t \<in> set r. small t"
proof (induction acc new arbitrary: r rule: add_items.induct)
  case (3 a acc b new)
  then show ?case by (auto split: sum.splits dest: iadd_small)
qed auto

lemma add_store_small:
  "add_store acc new = Inr r \<Longrightarrow> store_small acc \<Longrightarrow> store_small r"
proof (induction acc arbitrary: r)
  case Nil
  then show ?case by (simp add: store_small_def)
next
  case (Cons a acc)
  obtain key items where a: "a = (key, items)" by (cases a)
  from Cons.prems a obtain its ri rs where
    ri: "add_items items its = Inr ri" and rs: "add_store acc new = Inr rs" and r: "r = (key, ri) # rs"
    by (auto split: option.splits sum.splits)
  from Cons.prems(2) a have s1: "\<forall>t \<in> set items. small t" and s2: "store_small acc"
    by (auto simp: store_small_def)
  from add_items_small[OF ri s1] Cons.IH[OF rs s2] r show ?case
    by (auto simp: store_small_def)
qed

lemma store_between_steps_small:
  assumes "store_small (step_store st)" "store_small (attention_store st)"
    "store_between_steps st = Inr st'"
  shows "store_small (step_store st') \<and> store_small (attention_store st')"
  using assms
  by (auto simp: store_between_steps_def store_small_empty split: if_splits sum.splits dest: add_store_small)

lemma between_steps_small:
  assumes "store_small (step_store st)" "store_small (attention_store st)"
    "between_steps cls st = Inr st'"
  shows "store_small (step_store st') \<and> store_small (attention_store st')"
  using assms by (cases cls) (auto dest: store_between_steps_small)

lemma call_small:
  assumes "store_small (step_store st)" "store_small (attention_store st)"
    "call lr cls st attn is_cross place = Inr (st', attn')"
  shows "store_small (step_store st') \<and> store_small (attention_store st')"
proof -
  from call_result[OF assms(3)] obtain st1 where
    t: "call_transform lr cls st attn is_cross place = Inr (st1, attn')"
    and r: "if cur_att_layer st + 1 = num_att_layers st + num_uncond_att_layers lr st
               then between_steps cls (st1\<lparr>cur_att_layer := 0, cur_step := cur_step st + 1\<rparr>) = Inr st'
                    \<and> cur_att_layer st' = 0 \<and> cur_step st' = cur_step st + 1
               else st' = st1\<lparr>cur_att_layer := cur_att_layer st + 1\<rparr>
                    \<and> cur_att_layer st' = cur_att_layer st + 1 \<and> cur_step st' = cur_step st"
    by blast
  from call_transform_frame[OF t] assms(2) have a: "store_small (attention_store st1)" by simp
  note s = call_transform_small[OF assms(1) t]
  show ?thesis
  proof (cases "cur_att_layer st + 1 = num_att_layers st + num_uncond_att_layers lr st")
    case True
    with r have b: "between_steps cls (st1\<lparr>cur_att_layer := 0, cur_step := cur_step st + 1\<rparr>) = Inr st'"
      by simp
    show ?thesis by (rule between_steps_small[OF _ _ b]) (simp_all add: a s)
  next
    case False
    with r have "st' = st1\<lparr>cur_att_layer := cur_att_layer st + 1\<rparr>" by simp
    with a s show ?thesis by simp
  qed
qed

lemma reachable_small:
  "reachable lr cls st \<Longrightarrow> store_small (step_store st) \<and> store_small (attention_store st)"
proof (induction rule: reachable.induct)
  case reach_init
  show ?case by (simp add: init_def store_small_empty) (simp add: store_small_def)
next
  case (reach_layers st n)
  then show ?case by simp
next
  case (reach_call st attn is_cross place_in_unet st' attn')
  then show ?case using call_small by blast
next
  case (reach_reset st)
  show ?case by (simp add: reset_def store_small_empty) (simp add: store_small_def)
qed

text \<open>
  Claim C4. \<open>AttentionStore.forward\<close> leaves the state as it is when the tensor's second
  axis (the one compared with \<open>32 ** 2\<close>) is longer than \<open>32 ** 2\<close>; and in every state a
  controller of any class can reach, every tensor of the per-step buffer and of the
  cumulative store has a second axis of length at most \<open>32 ** 2\<close>.
\<close>

theorem large_maps_never_stored:
  "(shape_at attn 1 = Inr d \<and> 32 ^ 2 < d
      \<longrightarrow> store_forward st0 attn is_cross place_in_unet = Inr (st0, attn))
   \<and> (reachable lr cls st
      \<longrightarrow> store_small (step_store st) \<and> store_small (attention_store st)
          \<and> (\<forall>key items t. ((key, items) \<in> set (step_store st) \<or> (key, items) \<in> set (attention_store st))
                 \<and> t \<in> set items
               \<longrightarrow> (\<exists>d. shape_at t 1 = Inr d \<and> d \<le> 32 ^ 2)))"
proof -
  have 1: "shape_at attn 1 = Inr d \<and> 32 ^ 2 < d
      \<longrightarrow> store_forward st0 attn is_cross place_in_unet = Inr (st0, attn)"
    by (auto simp: store_forward_def)
  have 2: "reachable lr cls st
      \<longrightarrow> store_small (step_store st) \<and> store_small (attention_store st)
          \<and> (\<forall>key items t. ((key, items) \<in> set (step_store st) \<or> (key, items) \<in> set (attention_store st))
                 \<and> t \<in> set items
               \<longrightarrow> (\<exists>d. shape_at t 1 = Inr d \<and> d \<le> 32 ^ 2))"
  proof
    assume "reachable lr cls st"
    from reachable_small[OF this]
    have s: "store_small (step_store st) \<and> store_small (attention_store st)" .
    have "\<exists>d. shape_at t 1 = Inr d \<and> d \<le> 32 ^ 2"
      if "((key, items) \<in> set (step_store st) \<or> (key, items) \<in> set (attention_store st)) \<and> t \<in> set items"
      for key items t
    proof -
      from that s have "small t" unfolding store_small_def by blast
      then show ?thesis by (auto simp: small_def split: sum.splits)
    qed
    with s show "store_small (step_store st) \<and> store_small (attention_store st)
          \<and> (\<forall>key items t. ((key, items) \<in> set (step_store st) \<or> (key, items) \<in> set (attention_store st))
                 \<and> t \<in> set items
               \<longrightarrow> (\<exists>d. shape_at t 1 = Inr d \<and> d \<le> 32 ^ 2))" by blast
  qed
  from 1 2 show ?thesis by blast
qed

theorem large_maps_never_stored_witness:
  "shape_at ex_big 1 = Inr 1025 \<and> (32::nat) ^ 2 < 1025
   \<and> store_forward ex_state ex_big True ''down'' = Inr (ex_state, ex_big)
   \<and> reachable False AttentionStore ex_state'
   \<and> (''down_cross'', [\<lparr>shape = [1, 1, 2], vals = [3, 4]\<rparr>]) \<in> set (attention_store ex_state')
   \<and> (\<exists>d. shape_at \<lparr>shape = [1, 1, 2], vals = [3, 4::real]\<rparr> 1 = Inr d \<and> d \<le> 32 ^ 2)"
proof -
  have b: "shape_at ex_big 1 = Inr 1025 \<and> (32::nat) ^ 2 < 1025"
    by (simp add: ex_big_def shape_at_def)
  have m: "(''down_cross'', [\<lparr>shape = [1, 1, 2], vals = [3, 4]\<rparr>]) \<in> set (attention_store ex_state')"
    by (simp add: ex_state'_def get_empty_store_def)
  show ?thesis
    using large_maps_never_stored[of ex_big 1025 ex_state True "''down''" False AttentionStore ex_state']
      b m ex_reachable
    by (simp add: shape_at_def)
qed

subsection \<open>Tensors\<close>

lemma all_idx_valid: "idx \<in> set (all_idx s) \<Longrightarrow> valid_idx s idx"
  by (induction s arbitrary: idx) auto

lemma block_upt: "map (\<lambda>j. a + j) [0..<p] = [a..<a + p]"
  by (induction p) auto

lemma concat_blocks:
  "concat (map (\<lambda>i. map (\<lambda>j. i * p + j) [0..<p]) [0..<d]) = [0..<d * p]"
proof (induction d)
  case (Suc d)
  have "concat (map (\<lambda>i. map (\<lambda>j. i * p + j) [0..<p]) [0..<Suc d])
      = [0..<d * p] @ map (\<lambda>j. d * p + j) [0..<p]"
    using Suc by simp
  also have "\<dots> = [0..<d * p] @ [d * p..<d * p + p]"
    by (simp only: block_upt)
  also have "\<dots> = [0..<d * p + p]"
    by (metis le_add1 upt_add_eq_append zero_le)
  finally show ?case by (simp add: add.commute)
qed simp

lemma flat_all_idx: "map (flat_index s) (all_idx s) = [0..<prod_list s]"
proof (induction s)
  case (Cons d ds)
  have "map (flat_index (d # ds)) (all_idx (d # ds))
      = concat (map (\<lambda>i. map (\<lambda>is. i * prod_list ds + flat_index ds is) (all_idx ds)) [0..<d])"
    by (simp add: map_concat comp_def)
  also have "\<dots> = concat (map (\<lambda>i. map (\<lambda>j. i * prod_list ds + j) (map (flat_index ds) (all_idx ds))) [0..<d])"
    by (simp add: comp_def)
  also have "\<dots> = [0..<d * prod_list ds]"
    by (simp only: Cons.IH concat_blocks)
  finally show ?case by simp
qed simp

lemma length_all_idx: "length (all_idx s) = prod_list s"
  using flat_all_idx[of s] by (metis length_map length_upt minus_nat.diff_0)

lemma tabulate_get:
  fixes t :: "'a tensor"
  assumes "wf_tensor t"
  shows "tabulate (shape t) (get t) = t"
proof -
  have "map (get t) (all_idx (shape t)) = map (\<lambda>k. vals t ! k) (map (flat_index (shape t)) (all_idx (shape t)))"
    by (simp add: get_def comp_def)
  also have "\<dots> = map (\<lambda>k. vals t ! k) [0..<length (vals t)]"
    using assms by (simp only: flat_all_idx wf_tensor_def)
  also have "\<dots> = vals t" by (rule map_nth)
  finally show ?thesis by (simp add: tabulate_def)
qed

lemma valid_idx_length: "valid_idx s idx \<Longrightarrow> length idx = length s"
  by (induction s idx rule: valid_idx.induct) simp_all

lemma bidx_same: "valid_idx s idx \<Longrightarrow> bidx s idx = idx"
proof (induction s idx rule: valid_idx.induct)
  case (2 d ds i "is")
  then have "bidx ds is = is" and "length is = length ds"
    by (simp_all add: valid_idx_length)
  with 2 show ?case by (auto simp: bidx_def)
qed (simp_all add: bidx_def)

lemma broadcast_rev_same: "broadcast_rev s s = Inr s"
  by (induction s) auto

lemma broadcast_shapes_same: "broadcast_shapes s s = Inr s"
  by (simp add: broadcast_shapes_def broadcast_rev_same)




lemma scale_one: "scale 1 t = t"
  by (simp add: scale_def tmap_def)



subsection \<open>The accumulator over several steps\<close>








lemma store_key_good:
  "place \<in> {''down'', ''mid'', ''up''} \<Longrightarrow> store_key place is_cross \<in> set store_keys"
  by (auto simp: store_key_def store_keys_def get_empty_store_def)





















subsection \<open>The self-attention policy\<close>





lemma store_forward_ok:
  assumes "map fst (step_store st) = store_keys" "place \<in> {''down'', ''mid'', ''up''}"
    "2 \<le> length (shape a)"
  shows "\<exists>st'. store_forward st a is_cross place = Inr (st', a)"
proof -
  have "store_key place is_cross \<in> fst ` set (step_store st)"
    using store_key_good[OF assms(2), of is_cross] assms(1) by (metis list.set_map)
  then obtain items where "map_of (step_store st) (store_key place is_cross) = Some items"
    by (metis domIff dom_map_of_conv_image_fst not_Some_eq)
  then show ?thesis using assms(3)
    by (simp add: store_forward_def Let_def shape_at_def)
qed



lemma concat_replicate_nth:
  "b < n \<Longrightarrow> r < length xs \<Longrightarrow> concat (replicate n xs) ! (b * length xs + r) = xs ! r"
proof (induction n arbitrary: b)
  case (Suc n)
  show ?case
  proof (cases b)
    case 0
    with Suc.prems show ?thesis by (simp add: nth_append)
  next
    case (Suc b')
    with Suc.prems Suc.IH[of b'] show ?thesis by (simp add: nth_append)
  qed
qed simp




subsection \<open>Reading a tabulated tensor\<close>

lemma shape_tabulate [simp]: "shape (tabulate s f) = s"
  by (simp add: tabulate_def)

lemma wf_tabulate: "wf_tensor (tabulate s f)"
  by (simp add: wf_tensor_def tabulate_def length_all_idx)

lemma concat_map_nth:
  assumes "\<forall>i < d. length (g i) = n" "i < d" "r < n"
  shows "concat (map g [0..<d]) ! (i * n + r) = g i ! r"
  using assms
proof (induction d)
  case (Suc d)
  have len: "length (concat (map g [0..<d])) = d * n"
    using Suc.prems(1) by (induction d) auto
  show ?case
  proof (cases "i < d")
    case True
    have "i * n + r < (i + 1) * n" using Suc.prems(3) by simp
    also have "\<dots> \<le> d * n" using True by (intro mult_le_mono1) simp
    finally have "i * n + r < d * n" .
    with Suc True show ?thesis by (simp add: nth_append len)
  next
    case False
    with Suc.prems have "i = d" by simp
    with Suc.prems show ?thesis by (simp add: nth_append len)
  qed
qed simp

lemma all_idx_nth:
  "valid_idx s idx \<Longrightarrow> all_idx s ! flat_index s idx = idx"
proof (induction s idx rule: valid_idx.induct)
  case (2 d ds i "is")
  then have v: "valid_idx ds is" and i: "i < d" by simp_all
  have r: "flat_index ds is < prod_list ds" using v by (rule flat_index_bound)
  have "concat (map (\<lambda>i. map ((#) i) (all_idx ds)) [0..<d]) ! (i * prod_list ds + flat_index ds is)
      = map ((#) i) (all_idx ds) ! flat_index ds is"
    using i r by (intro concat_map_nth) (simp_all add: length_all_idx)
  also have "\<dots> = i # (all_idx ds ! flat_index ds is)"
    using r by (simp add: length_all_idx)
  finally show ?case using 2 by simp
qed simp_all

lemma get_tabulate: "valid_idx s idx \<Longrightarrow> get (tabulate s f) idx = f idx"
  using flat_index_bound[of s idx]
  by (simp add: get_def tabulate_def length_all_idx all_idx_nth)

lemma binop_get:
  assumes "binop f a b = Inr r" "valid_idx (shape r) idx"
  shows "get r idx = f (get a (bidx (shape a) idx)) (get b (bidx (shape b) idx))"
  using assms by (auto simp: binop_def get_tabulate split: sum.splits)


lemma binop_wf: "binop f a b = Inr r \<Longrightarrow> wf_tensor r"
  by (auto simp: binop_def wf_tabulate split: sum.splits)

lemma binop_ok:
  "broadcast_shapes (shape a) (shape b) = Inr s \<Longrightarrow> \<exists>r. binop f a b = Inr r \<and> shape r = s"
  by (simp add: binop_def)

subsection \<open>Replace: contraction with the mapper and blend\<close>

lemma select0_wf:
  assumes "wf_tensor t" "select0 i t = Inr t'"
  shows "wf_tensor t'"
proof -
  from assms(2) obtain d ds where s: "shape t = d # ds"
    by (cases "shape t") (auto simp: select0_def)
  define j where "j = nat (if i < 0 then i + int d else i)"
  from assms(2) s have j: "j < d"
    and t': "t' = \<lparr>shape = ds, vals = take (prod_list ds) (drop (j * prod_list ds) (vals t))\<rparr>"
    by (auto simp: select0_def Let_def j_def split: if_splits)
  have "(j + 1) * prod_list ds \<le> d * prod_list ds" using j by (intro mult_le_mono1) simp
  then have "prod_list ds \<le> length (vals t) - j * prod_list ds"
    using assms(1) s by (simp add: wf_tensor_def)
  then show ?thesis by (simp add: t' wf_tensor_def)
qed

lemma tmap_get:
  "wf_tensor t \<Longrightarrow> valid_idx (shape t) idx \<Longrightarrow> get (tmap g t) idx = g (get t idx)"
  using flat_index_bound[of "shape t" idx]
  by (simp add: get_def tmap_def wf_tensor_def)

lemma bidx_dim [simp]: "i < d \<Longrightarrow> (if d = Suc 0 then 0 else i) = i"
  by auto

lemma einsum_replace:
  assumes "shape base = [h, p, w]" "shape mapper = [e, w, w]"
  shows "einsum_hpw_bwn base mapper =
           Inr (tabulate [e, h, p, w]
                 (\<lambda>i. \<Sum>k\<leftarrow>[0..<w]. get base [i ! 1, i ! 2, k] * get mapper [i ! 0, k, i ! 3]))"
  using assms by (simp add: einsum_hpw_bwn_def)

lemma cross_blend_replace:
  assumes sb: "shape base = [h, p, w]" and sr: "shape repl = [e, h, p, w]"
    and sm: "shape mapper = [e, w, w]"
    and sel: "select0 t (cross_replace_alpha cfg) = Inr aw"
    and wa: "wf_tensor aw"
    and sa: "shape aw = [e, 1, 1, w] \<or> shape aw = [w]"
  shows "\<exists>res. cross_blend cfg (AttentionReplace mapper) t base repl = Inr res
           \<and> shape res = [e, h, p, w] \<and> wf_tensor res
           \<and> (\<forall>v j i n. v < e \<and> j < h \<and> i < p \<and> n < w \<longrightarrow>
                 get res [v, j, i, n] =
                   get aw (bidx (shape aw) [v, j, i, n])
                     * (\<Sum>k\<leftarrow>[0..<w]. get base [j, i, k] * get mapper [v, k, n])
                   + (1 - get aw (bidx (shape aw) [v, j, i, n])) * get repl [v, j, i, n])"
proof -
  let ?s = "[e, h, p, w]"
  let ?new = "tabulate ?s
                 (\<lambda>i. \<Sum>k\<leftarrow>[0..<w]. get base [i ! 1, i ! 2, k] * get mapper [i ! 0, k, i ! 3])"
  let ?om = "tmap (\<lambda>x. 1 - x) aw"
  have b1: "broadcast_shapes ?s (shape aw) = Inr ?s"
    using sa by (auto simp: broadcast_shapes_def)
  have b2: "broadcast_shapes (shape ?om) (shape repl) = Inr ?s"
    using sa sr by (auto simp: broadcast_shapes_def tmap_def)
  from binop_ok[of ?new aw ?s "(*)"] b1 obtain l where
    l: "binop (*) ?new aw = Inr l" and sl: "shape l = ?s" by auto
  from binop_ok[OF b2, of "(*)"] obtain r where
    r: "binop (*) ?om repl = Inr r" and srr: "shape r = ?s" by auto
  have "broadcast_shapes (shape l) (shape r) = Inr ?s"
    by (simp add: sl srr broadcast_shapes_same)
  from binop_ok[OF this, of "(+)"] obtain res where
    res: "binop (+) l r = Inr res" and sres: "shape res = ?s" by auto
  have cb: "cross_blend cfg (AttentionReplace mapper) t base repl = Inr res"
    unfolding cross_blend_def replace_cross_attention.simps
    by (simp only: sel einsum_replace[OF sb sm] l r res sum.case)
  have g: "get res [v, j, i, n] =
                   get aw (bidx (shape aw) [v, j, i, n])
                     * (\<Sum>k\<leftarrow>[0..<w]. get base [j, i, k] * get mapper [v, k, n])
                   + (1 - get aw (bidx (shape aw) [v, j, i, n])) * get repl [v, j, i, n]"
    if "v < e \<and> j < h \<and> i < p \<and> n < w" for v j i n
  proof -
    let ?idx = "[v, j, i, n]"
    have v: "valid_idx ?s ?idx" using that by simp
    have va: "valid_idx (shape aw) (bidx (shape aw) ?idx)"
      using sa that by (auto simp: bidx_def)
    have "get res ?idx = get l ?idx + get r ?idx"
      using binop_get[OF res] v by (simp add: sres sl srr bidx_same)
    also have "get l ?idx = get ?new ?idx * get aw (bidx (shape aw) ?idx)"
      using binop_get[OF l] v by (simp add: sl bidx_same)
    also have "get ?new ?idx = (\<Sum>k\<leftarrow>[0..<w]. get base [j, i, k] * get mapper [v, k, n])"
      using v by (simp add: get_tabulate)
    also have "get r ?idx = get ?om (bidx (shape aw) ?idx) * get repl ?idx"
      using binop_get[OF r] v by (simp add: srr sr bidx_same tmap_def)
    also have "get ?om (bidx (shape aw) ?idx) = 1 - get aw (bidx (shape aw) ?idx)"
      using wa va by (rule tmap_get)
    finally show ?thesis by (simp add: mult.commute)
  qed
  from cb sres binop_wf[OF res] g show ?thesis by blast
qed

lemma edit_attention_cross_replace:
  assumes wf: "wf_tensor attn" and sh: "shape attn = [B * h, p, w]" and B: "0 < B"
    and bs: "batch_size cfg = B" and sm: "shape mapper = [B - 1, w, w]"
    and sel: "select0 t (cross_replace_alpha cfg) = Inr aw"
    and wa: "wf_tensor aw"
    and sa: "shape aw = [B - 1, 1, 1, w] \<or> shape aw = [w]"
  shows "\<exists>r. edit_attention cfg (AttentionReplace mapper) t attn True = Inr r
           \<and> shape r = shape attn
           \<and> (\<forall>j i n. j < h \<and> i < p \<and> n < w \<longrightarrow> get r [j, i, n] = get attn [j, i, n])
           \<and> (\<forall>v j i n. v < B - 1 \<and> j < h \<and> i < p \<and> n < w \<longrightarrow>
                 get r [(v + 1) * h + j, i, n] =
                   get aw (bidx (shape aw) [v, j, i, n])
                     * (\<Sum>k\<leftarrow>[0..<w]. get attn [j, i, k] * get mapper [v, k, n])
                   + (1 - get aw (bidx (shape aw) [v, j, i, n])) * get attn [(v + 1) * h + j, i, n])"
proof -
  let ?n = "h * (p * w)"
  let ?base = "\<lparr>shape = [h, p, w], vals = take ?n (vals attn)\<rparr>"
  let ?repl = "\<lparr>shape = [B - 1, h, p, w], vals = drop ?n (vals attn)\<rparr>"
  have len: "length (vals attn) = B * ?n" using wf sh by (simp add: wf_tensor_def)
  have le: "?n \<le> length (vals attn)" using B len by simp
  from cross_blend_replace[of ?base h p w ?repl "B - 1" mapper t cfg aw] sm sel wa sa
  obtain res where cb: "cross_blend cfg (AttentionReplace mapper) t ?base ?repl = Inr res"
    and sres: "shape res = [B - 1, h, p, w]" and wres: "wf_tensor res"
    and gres: "\<And>v j i n. v < B - 1 \<and> j < h \<and> i < p \<and> n < w \<Longrightarrow>
                 get res [v, j, i, n] =
                   get aw (bidx (shape aw) [v, j, i, n])
                     * (\<Sum>k\<leftarrow>[0..<w]. get ?base [j, i, k] * get mapper [v, k, n])
                   + (1 - get aw (bidx (shape aw) [v, j, i, n])) * get ?repl [v, j, i, n]"
    by auto
  let ?r = "\<lparr>shape = [B * h, p, w], vals = take ?n (vals attn) @ vals res\<rparr>"
  have ea: "edit_attention cfg (AttentionReplace mapper) t attn True = Inr ?r"
    using B sh bs cb sres
    by (simp add: edit_attention_def shape_at_def reshape_def select0_def slice_from_def
        setitem_from_def copy_to_def Let_def min_absorb1)
  have bnd: "j * (p * w) + (i * w + n) < ?n" if "j < h \<and> i < p \<and> n < w" for j i n
    using flat_index_bound[of "[h, p, w]" "[j, i, n]"] that by simp
  have gb: "get ?base [j, i, n] = get attn [j, i, n]" if "j < h \<and> i < p \<and> n < w" for j i n
    using bnd[OF that] by (simp add: get_def sh)
  have g1: "get ?r [j, i, n] = get attn [j, i, n]" if "j < h \<and> i < p \<and> n < w" for j i n
    using bnd[OF that] le by (simp add: get_def sh nth_append)
  have gr: "get ?repl [v, j, i, n] = get attn [(v + 1) * h + j, i, n]"
    if "v < B - 1 \<and> j < h \<and> i < p \<and> n < w" for v j i n
    using le by (simp add: get_def sh algebra_simps)
  have g2: "get ?r [(v + 1) * h + j, i, n] = get res [v, j, i, n]"
    if "v < B - 1 \<and> j < h \<and> i < p \<and> n < w" for v j i n
  proof -
    have f: "flat_index [B * h, p, w] [(v + 1) * h + j, i, n]
        = length (take ?n (vals attn)) + flat_index (shape res) [v, j, i, n]"
      using le by (simp add: sres algebra_simps)
    have "get ?r [(v + 1) * h + j, i, n]
        = (take ?n (vals attn) @ vals res) ! flat_index [B * h, p, w] [(v + 1) * h + j, i, n]"
      by (simp add: get_def)
    also have "\<dots> = (take ?n (vals attn) @ vals res)
                      ! (length (take ?n (vals attn)) + flat_index (shape res) [v, j, i, n])"
      by (simp only: f)
    also have "\<dots> = vals res ! flat_index (shape res) [v, j, i, n]"
      by (rule nth_append_length_plus)
    finally show ?thesis by (simp add: get_def)
  qed
  have g3: "get ?r [(v + 1) * h + j, i, n] =
                   get aw (bidx (shape aw) [v, j, i, n])
                     * (\<Sum>k\<leftarrow>[0..<w]. get attn [j, i, k] * get mapper [v, k, n])
                   + (1 - get aw (bidx (shape aw) [v, j, i, n])) * get attn [(v + 1) * h + j, i, n]"
    if t: "v < B - 1 \<and> j < h \<and> i < p \<and> n < w" for v j i n
  proof -
    have "map (\<lambda>k. get ?base [j, i, k] * get mapper [v, k, n]) [0..<w]
        = map (\<lambda>k. get attn [j, i, k] * get mapper [v, k, n]) [0..<w]"
      using t by (intro map_cong) (simp_all add: gb)
    then show ?thesis
      by (simp only: g2[OF t] gres[OF t] gr[OF t])
  qed
  from ea g1 g3 sh show ?thesis by auto
qed

lemma sum_list_delta:
  fixes f :: "nat \<Rightarrow> real"
  assumes "n < w"
  shows "(\<Sum>k\<leftarrow>[0..<w]. f k * (if k = n then 1 else 0)) = f n"
proof -
  have "(\<Sum>k\<leftarrow>[0..<w]. f k * (if k = n then 1 else 0))
      = (\<Sum>k\<in>{0..<w}. f k * (if k = n then 1 else 0))"
    by (simp add: interv_sum_list_conv_sum_set_nat)
  also have "\<dots> = (\<Sum>k\<in>{0..<w}. if k = n then f k else 0)"
    by (intro sum.cong) simp_all
  also have "\<dots> = f n" using assms by simp
  finally show ?thesis .
qed

lemma get_in_set:
  "wf_tensor t \<Longrightarrow> valid_idx (shape t) idx \<Longrightarrow> get t idx \<in> set (vals t)"
  using flat_index_bound[of "shape t" idx] by (simp add: get_def wf_tensor_def)

text \<open>
  Claim C2. For the Replace strategy and a cross-attention tensor of shape
  \<open>(B * h, p, w)\<close> with \<open>B\<close> prompts, a mapper of shape \<open>(B - 1, w, w)\<close> and activation
  weights \<open>alpha_words = cross_replace_alpha[cur_step]\<close> of shape \<open>(B - 1, 1, 1, w)\<close> or
  \<open>(w)\<close>: \<open>forward\<close> returns a tensor of the same shape whose reference block is the
  input's, and whose element \<open>(j, i, n)\<close> of edited variant \<open>v\<close> is
  \<open>alpha * (sum over k of R[j, i, k] * mapper[v, k, n]) + (1 - alpha) * E[v, j, i, n]\<close>,
  with \<open>alpha\<close> the weight of variant \<open>v\<close> at token \<open>n\<close>. If the mapper is the identity
  matrix and every weight is 1, each edited element equals the reference element.
\<close>

theorem replace_blend:
  assumes "wf_tensor attn" and "shape attn = [B * h, p, w]"
    and "0 < B" and "batch_size cfg = B"
    and "shape mapper = [B - 1, w, w]"
    and "wf_tensor (cross_replace_alpha cfg)"
    and "select0 (cur_step st) (cross_replace_alpha cfg) = Inr alpha_words"
    and "shape alpha_words = [B - 1, 1, 1, w] \<or> shape alpha_words = [w]"
    and "map fst (step_store st) = store_keys" and "place_in_unet \<in> {''down'', ''mid'', ''up''}"
  shows "\<exists>st' r. forward (AttentionControlEdit cfg (AttentionReplace mapper)) st attn True place_in_unet
                   = Inr (st', r)
           \<and> shape r = shape attn
           \<and> (\<forall>j i n. j < h \<and> i < p \<and> n < w \<longrightarrow> get r [j, i, n] = get attn [j, i, n])
           \<and> (\<forall>v j i n. v < B - 1 \<and> j < h \<and> i < p \<and> n < w \<longrightarrow>
                 get r [(v + 1) * h + j, i, n] =
                   get alpha_words (bidx (shape alpha_words) [v, j, i, n])
                     * (\<Sum>k\<leftarrow>[0..<w]. get attn [j, i, k] * get mapper [v, k, n])
                   + (1 - get alpha_words (bidx (shape alpha_words) [v, j, i, n]))
                     * get attn [(v + 1) * h + j, i, n])
           \<and> ((\<forall>v k n. v < B - 1 \<and> k < w \<and> n < w \<longrightarrow> get mapper [v, k, n] = (if k = n then 1 else 0))
                \<and> (\<forall>x \<in> set (vals alpha_words). x = 1)
              \<longrightarrow> (\<forall>v j i n. v < B - 1 \<and> j < h \<and> i < p \<and> n < w \<longrightarrow>
                     get r [(v + 1) * h + j, i, n] = get attn [j, i, n]))"
proof -
  have wa: "wf_tensor alpha_words" using assms(6,7) by (rule select0_wf)
  from edit_attention_cross_replace[OF assms(1-5) assms(7) wa assms(8)]
  obtain r where ea: "edit_attention cfg (AttentionReplace mapper) (cur_step st) attn True = Inr r"
    and sr: "shape r = shape attn"
    and g1: "\<forall>j i n. j < h \<and> i < p \<and> n < w \<longrightarrow> get r [j, i, n] = get attn [j, i, n]"
    and g2: "\<forall>v j i n. v < B - 1 \<and> j < h \<and> i < p \<and> n < w \<longrightarrow>
                 get r [(v + 1) * h + j, i, n] =
                   get alpha_words (bidx (shape alpha_words) [v, j, i, n])
                     * (\<Sum>k\<leftarrow>[0..<w]. get attn [j, i, k] * get mapper [v, k, n])
                   + (1 - get alpha_words (bidx (shape alpha_words) [v, j, i, n]))
                     * get attn [(v + 1) * h + j, i, n]"
    by blast
  have r2: "2 \<le> length (shape attn)" "2 \<le> length (shape r)" using assms(2) sr by simp_all
  from store_forward_ok[OF assms(9,10) r2(1)] obtain st1 where
    s1: "store_forward st attn True place_in_unet = Inr (st1, attn)" by blast
  from store_forward_ok[OF assms(9,10) r2(2)] obtain st2 where
    s2: "store_forward st r True place_in_unet = Inr (st2, r)" by blast
  have f: "forward (AttentionControlEdit cfg (AttentionReplace mapper)) st attn True place_in_unet
             = Inr (st2, r)"
    by (simp add: edit_forward_def s1 ea s2)
  have g3: "get r [(v + 1) * h + j, i, n] = get attn [j, i, n]"
    if idm: "\<forall>v k n. v < B - 1 \<and> k < w \<and> n < w \<longrightarrow> get mapper [v, k, n] = (if k = n then 1 else 0)"
      and ones: "\<forall>x \<in> set (vals alpha_words). x = 1"
      and t: "v < B - 1 \<and> j < h \<and> i < p \<and> n < w" for v j i n
  proof -
    have "valid_idx (shape alpha_words) (bidx (shape alpha_words) [v, j, i, n])"
      using assms(8) t by (auto simp: bidx_def)
    from get_in_set[OF wa this] ones
    have a: "get alpha_words (bidx (shape alpha_words) [v, j, i, n]) = 1" by blast
    have "map (\<lambda>k. get attn [j, i, k] * get mapper [v, k, n]) [0..<w]
        = map (\<lambda>k. get attn [j, i, k] * (if k = n then 1 else 0)) [0..<w]"
      using idm t by (intro map_cong) simp_all
    then have "(\<Sum>k\<leftarrow>[0..<w]. get attn [j, i, k] * get mapper [v, k, n])
        = (\<Sum>k\<leftarrow>[0..<w]. get attn [j, i, k] * (if k = n then 1 else 0))"
      by (rule arg_cong)
    also have "\<dots> = get attn [j, i, n]"
      using t by (intro sum_list_delta) simp
    finally have "(\<Sum>k\<leftarrow>[0..<w]. get attn [j, i, k] * get mapper [v, k, n]) = get attn [j, i, n]" .
    with g2 t a show ?thesis by simp
  qed
  have g3': "(\<forall>v k n. v < B - 1 \<and> k < w \<and> n < w \<longrightarrow> get mapper [v, k, n] = (if k = n then 1 else 0))
                \<and> (\<forall>x \<in> set (vals alpha_words). x = 1)
              \<longrightarrow> (\<forall>v j i n. v < B - 1 \<and> j < h \<and> i < p \<and> n < w \<longrightarrow>
                     get r [(v + 1) * h + j, i, n] = get attn [j, i, n])"
    using g3 by blast
  show ?thesis
    by (rule exI[of _ st2], rule exI[of _ r]) (intro conjI f sr g1 g2 g3')
qed

lemma ex_select:
  "select0 (cur_step ex_state) (cross_replace_alpha ex_cfg) = Inr ex_alpha_words"
  by (simp add: select0_def ex_cfg_def edit_init_def ex_state_def init_def ex_alpha_words_def
      eval_nat_numeral)

lemma ex_id_identity:
  "\<forall>v k n. v < (2::nat) - 1 \<and> k < (2::nat) \<and> n < (2::nat)
     \<longrightarrow> get ex_id [v, k, n] = (if k = n then 1 else 0)"
  by (auto simp: get_def ex_id_def less_Suc_eq numeral_2_eq_2)

theorem replace_blend_witness:
  "wf_tensor ex_attn \<and> shape ex_attn = [2 * 1, 1, 2] \<and> (0::nat) < 2 \<and> batch_size ex_cfg = 2
   \<and> shape ex_id = [2 - 1, 2, 2] \<and> wf_tensor (cross_replace_alpha ex_cfg)
   \<and> select0 (cur_step ex_state) (cross_replace_alpha ex_cfg) = Inr ex_alpha_words
   \<and> shape ex_alpha_words = [2 - 1, 1, 1, 2]
   \<and> map fst (step_store ex_state) = store_keys
   \<and> (\<exists>st' r. forward (AttentionControlEdit ex_cfg (AttentionReplace ex_id)) ex_state ex_attn True ''down''
                 = Inr (st', r)
          \<and> shape r = shape ex_attn
          \<and> get r [1, 0, 0] = get ex_attn [0, 0, 0] \<and> get r [1, 0, 1] = get ex_attn [0, 0, 1])"
proof -
  have w: "wf_tensor ex_attn" by (simp add: wf_tensor_def ex_attn_def)
  have s: "shape ex_attn = [2 * 1, 1, 2]" by (simp add: ex_attn_def)
  have B: "(0::nat) < 2" by simp
  have b: "batch_size ex_cfg = 2" by (simp add: ex_cfg_def edit_init_def)
  have m: "shape ex_id = [2 - 1, 2, 2]" by (simp add: ex_id_def)
  have wa: "wf_tensor (cross_replace_alpha ex_cfg)"
    by (simp add: wf_tensor_def ex_cfg_def edit_init_def)
  have sa: "shape ex_alpha_words = [2 - 1, 1, 1, 2]" by (simp add: ex_alpha_words_def)
  have sa': "shape ex_alpha_words = [2 - 1, 1, 1, 2] \<or> shape ex_alpha_words = [2]"
    using sa by simp
  have k: "map fst (step_store ex_state) = store_keys"
    by (simp add: ex_state_def init_def store_keys_def)
  have p: "''down'' \<in> {''down'', ''mid'', ''up''}" by simp
  have ones: "\<forall>x \<in> set (vals ex_alpha_words). x = 1" by (simp add: ex_alpha_words_def)
  note T = replace_blend[OF w s B b m wa ex_select sa' k p]
  have "\<exists>st' r. forward (AttentionControlEdit ex_cfg (AttentionReplace ex_id)) ex_state ex_attn True ''down''
                 = Inr (st', r)
          \<and> shape r = shape ex_attn
          \<and> get r [1, 0, 0] = get ex_attn [0, 0, 0] \<and> get r [1, 0, 1] = get ex_attn [0, 0, 1]"
    using T
    apply (elim exE conjE)
    subgoal premises prems for st' r
    proof -
      note e = prems(5)[THEN mp, OF conjI[OF ex_id_identity ones], rule_format]
      have "get r [1, 0, 0] = get ex_attn [0, 0, 0]" using e[of 0 0 0 0] by simp
      moreover have "get r [1, 0, 1] = get ex_attn [0, 0, 1]" using e[of 0 0 0 1] by simp
      ultimately show ?thesis
        by (intro exI[of _ st'] exI[of _ r] conjI prems(1) prems(2))
    qed
    done
  with w s B b m wa ex_select sa k show ?thesis by (intro conjI)
qed

subsection \<open>Reweight\<close>

lemma tabulate_cong:
  "(\<And>idx. valid_idx s idx \<Longrightarrow> f idx = g idx) \<Longrightarrow> tabulate s f = tabulate s g"
  by (simp add: tabulate_def all_idx_valid cong: map_cong)

lemma map_of_cols:
  "map_of (rev (zip inds (replicate (length inds) c))) n = (if n \<in> set inds then Some c else None)"
proof -
  have z: "zip inds (replicate (length inds) c) = map (\<lambda>i. (i, c)) inds"
    by (induction inds) simp_all
  have m: "map_of (map (\<lambda>i. (i, c)) xs) n = (if n \<in> set xs then Some c else None)" for xs
    by (induction xs) simp_all
  have "rev (map (\<lambda>i. (i, c)) inds) = map (\<lambda>i. (i, c)) (rev inds)" by (rule rev_map)
  then show ?thesis using m[of "rev inds"] by (simp add: z)
qed

lemma set_columns_single:
  assumes "shape eq = [v, n]" "\<forall>c \<in> set inds. c < n"
  shows "set_columns inds [x] eq =
           Inr (tabulate [v, n] (\<lambda>idx. if idx ! 1 \<in> set inds then x else get eq idx))"
proof -
  have vs: "(if length [x] = length inds then [x] else replicate (length inds) (hd [x]))
              = replicate (length inds) x"
    by (cases inds) auto
  have la: "list_all (\<lambda>c. c < n) inds" using assms(2) by (simp add: list_all_iff)
  have "set_columns inds [x] eq =
     Inr (tabulate [v, n]
           (\<lambda>idx. case map_of (rev (zip inds (replicate (length inds) x))) (idx ! 1) of
                     None \<Rightarrow> get eq idx | Some y \<Rightarrow> y))"
    unfolding set_columns_def Let_def vs using assms(1) la by simp
  also have "(\<lambda>idx. case map_of (rev (zip inds (replicate (length inds) x))) (idx ! 1) of
                     None \<Rightarrow> get eq idx | Some y \<Rightarrow> y)
           = (\<lambda>idx. if idx ! 1 \<in> set inds then x else get eq idx)"
    by (simp add: map_of_cols fun_eq_iff)
  finally show ?thesis .
qed

lemma get_equalizer_single:
  assumes "\<forall>c \<in> set (get_word_inds word). c < 77"
  shows "get_equalizer get_word_inds (Single word) [x] =
           Inr (tabulate [1, 77] (\<lambda>idx. if idx ! 1 \<in> set (get_word_inds word) then x else 1))"
proof -
  have "tabulate [1, 77] (\<lambda>idx. if idx ! 1 \<in> set (get_word_inds word) then x
                                 else get (tabulate [1, 77] (\<lambda>_. 1)) idx)
      = tabulate [1, 77] (\<lambda>idx. if idx ! 1 \<in> set (get_word_inds word) then x else 1)"
    by (rule tabulate_cong) (simp add: get_tabulate)
  then show ?thesis
    using set_columns_single[of "tabulate [1, 77] (\<lambda>_. 1)" 1 77 "get_word_inds word" x] assms
    by (simp add: get_equalizer_def)
qed

lemma expand0_get:
  assumes "wf_tensor t" "shape t = [h, p, w]" "v < b" "j < h" "i < p" "n < w"
  shows "get (expand0 b t) [v, j, i, n] = get t [j, i, n]"
proof -
  have len: "length (vals t) = h * (p * w)" using assms(1,2) by (simp add: wf_tensor_def)
  have r: "j * (p * w) + (i * w + n) < length (vals t)"
    using flat_index_bound[of "[h, p, w]" "[j, i, n]"] assms(4-6) by (simp add: len)
  have "get (expand0 b t) [v, j, i, n]
      = concat (replicate b (vals t)) ! (v * length (vals t) + (j * (p * w) + (i * w + n)))"
    by (simp add: get_def expand0_def assms(2) len)
  also have "\<dots> = vals t ! (j * (p * w) + (i * w + n))"
    using assms(3) r by (rule concat_replicate_nth)
  finally show ?thesis by (simp add: get_def assms(2))
qed

lemma reweight_none:
  assumes "shape base = [h, p, w]" "shape eq = [V, w]"
  shows "\<exists>r. replace_cross_attention (AttentionReweight eq None) base repl = Inr r
           \<and> shape r = [V, h, p, w]
           \<and> (\<forall>v j i n. v < V \<and> j < h \<and> i < p \<and> n < w \<longrightarrow>
                 get r [v, j, i, n] = get base [j, i, n] * get eq [v, n])"
proof -
  let ?l = "unsqueeze0 base" and ?e = "\<lparr>shape = [V, 1, 1, w], vals = vals eq\<rparr>"
  have b: "broadcast_shapes (shape ?l) (shape ?e) = Inr [V, h, p, w]"
    using assms by (simp add: broadcast_shapes_def unsqueeze0_def)
  from binop_ok[OF b, of "(*)"] obtain r where r: "binop (*) ?l ?e = Inr r"
    and sr: "shape r = [V, h, p, w]" by auto
  have rc: "replace_cross_attention (AttentionReweight eq None) base repl = Inr r"
    using assms r by (simp add: none_view_def equalizer_view_def)
  have "get r [v, j, i, n] = get base [j, i, n] * get eq [v, n]"
    if t: "v < V \<and> j < h \<and> i < p \<and> n < w" for v j i n
  proof -
    have v: "valid_idx (shape r) [v, j, i, n]" using t sr by simp
    have "get r [v, j, i, n]
        = get ?l (bidx (shape ?l) [v, j, i, n]) * get ?e (bidx (shape ?e) [v, j, i, n])"
      using binop_get[OF r v] .
    also have "get ?l (bidx (shape ?l) [v, j, i, n]) = get base [j, i, n]"
      using t by (simp add: get_def bidx_def unsqueeze0_def assms(1))
    also have "get ?e (bidx (shape ?e) [v, j, i, n]) = get eq [v, n]"
      using t by (simp add: get_def bidx_def assms(2))
    finally show ?thesis .
  qed
  with rc sr show ?thesis by blast
qed

lemma reweight_prior:
  assumes "replace_cross_attention c base repl = Inr prior" "shape prior = [b, h, p, w]"
    "shape eq = [V, w]" "V = b \<or> V = 1"
  shows "\<exists>r. replace_cross_attention (AttentionReweight eq (Some c)) base repl = Inr r
           \<and> shape r = [1, b, h, p, w]
           \<and> (\<forall>v j i n. v < b \<and> j < h \<and> i < p \<and> n < w \<longrightarrow>
                 get r [0, v, j, i, n]
                   = get prior [v, j, i, n] * get eq [if V = 1 then 0 else v, n])"
proof -
  let ?l = "unsqueeze0 prior" and ?e = "\<lparr>shape = [V, 1, 1, w], vals = vals eq\<rparr>"
  have b: "broadcast_shapes (shape ?l) (shape ?e) = Inr [1, b, h, p, w]"
    using assms by (auto simp: broadcast_shapes_def unsqueeze0_def)
  from binop_ok[OF b, of "(*)"] obtain r where r: "binop (*) ?l ?e = Inr r"
    and sr: "shape r = [1, b, h, p, w]" by auto
  have rc: "replace_cross_attention (AttentionReweight eq (Some c)) base repl = Inr r"
    using assms r by (simp add: none_view_def equalizer_view_def)
  have "get r [0, v, j, i, n] = get prior [v, j, i, n] * get eq [if V = 1 then 0 else v, n]"
    if t: "v < b \<and> j < h \<and> i < p \<and> n < w" for v j i n
  proof -
    have v: "valid_idx (shape r) [0, v, j, i, n]" using t sr by simp
    have v': "valid_idx (shape ?l) [0, v, j, i, n]" using t assms(2) by (simp add: unsqueeze0_def)
    have "get r [0, v, j, i, n]
        = get ?l (bidx (shape ?l) [0, v, j, i, n]) * get ?e (bidx (shape ?e) [0, v, j, i, n])"
      using binop_get[OF r v] .
    also have "bidx (shape ?l) [0, v, j, i, n] = [0, v, j, i, n]" using v' by (rule bidx_same)
    also have "get ?l [0, v, j, i, n] = get prior [v, j, i, n]"
      by (simp add: get_def unsqueeze0_def assms(2))
    also have "get ?e (bidx (shape ?e) [0, v, j, i, n]) = get eq [if V = 1 then 0 else v, n]"
      using t by (simp add: get_def bidx_def assms(3))
    finally show ?thesis .
  qed
  with rc sr show ?thesis by blast
qed

lemma valid_idx_Cons:
  "valid_idx (d # ds) idx \<longleftrightarrow> (\<exists>i is. idx = i # is \<and> i < d \<and> valid_idx ds is)"
  by (cases idx) auto

lemma valid_idx_Nil: "valid_idx [] idx \<longleftrightarrow> idx = []"
  by (cases idx) auto

lemma wf_expand0: "wf_tensor t \<Longrightarrow> wf_tensor (expand0 b t)"
  by (simp add: wf_tensor_def expand0_def length_concat sum_list_replicate)

lemma replace_identity:
  assumes "wf_tensor base" "shape base = [h, p, w]" "shape mapper = [b, w, w]"
    "\<forall>v k n. v < b \<and> k < w \<and> n < w \<longrightarrow> get mapper [v, k, n] = (if k = n then 1 else 0)"
  shows "replace_cross_attention (AttentionReplace mapper) base repl = Inr (expand0 b base)"
proof -
  have "tabulate [b, h, p, w]
          (\<lambda>i. \<Sum>k\<leftarrow>[0..<w]. get base [i ! 1, i ! 2, k] * get mapper [i ! 0, k, i ! 3])
      = tabulate [b, h, p, w] (get (expand0 b base))"
  proof (rule tabulate_cong)
    fix idx assume "valid_idx [b, h, p, w] idx"
    then obtain v j i n where idx: "idx = [v, j, i, n]" and t: "v < b" "j < h" "i < p" "n < w"
      by (auto simp: valid_idx_Cons valid_idx_Nil)
    have "map (\<lambda>k. get base [j, i, k] * get mapper [v, k, n]) [0..<w]
        = map (\<lambda>k. get base [j, i, k] * (if k = n then 1 else 0)) [0..<w]"
      using assms(4) t by (intro map_cong) simp_all
    then have "(\<Sum>k\<leftarrow>[0..<w]. get base [j, i, k] * get mapper [v, k, n])
        = (\<Sum>k\<leftarrow>[0..<w]. get base [j, i, k] * (if k = n then 1 else 0))"
      by (rule arg_cong)
    also have "\<dots> = get base [j, i, n]" using t by (intro sum_list_delta) simp
    also have "\<dots> = get (expand0 b base) [v, j, i, n]"
      using expand0_get[OF assms(1,2) t] by simp
    finally show "(\<Sum>k\<leftarrow>[0..<w]. get base [idx ! 1, idx ! 2, k] * get mapper [idx ! 0, k, idx ! 3])
        = get (expand0 b base) idx"
      by (simp add: idx)
  qed
  also have "\<dots> = expand0 b base"
    using tabulate_get[OF wf_expand0[OF assms(1), of b]] by (simp add: expand0_def assms(2))
  finally show ?thesis
    by (simp add: einsum_replace[OF assms(2,3)])
qed

text \<open>
  Claim C6. \<open>get_equalizer\<close> for one selected word and the single value 2 gives an
  equalizer of shape \<open>(1, 77)\<close> that is 2 at the word's token positions and 1 elsewhere.
  With it, \<open>replace_cross_attention\<close> of Reweight without a previous controller returns
  the reference attention times the equalizer at the token position: twice the reference
  at the word's positions, the reference elsewhere. With a previous controller whose
  result is \<open>prior\<close>, it returns \<open>prior\<close> times the equalizer at the token position, for
  every query position; if the previous controller acts as the identity (its result is
  the reference attention for each edited variant), that is again twice the reference at
  the word's positions and the reference elsewhere.
\<close>

theorem reweight_scales_selected_word:
  assumes "wf_tensor attn_base" and "shape attn_base = [h, p, 77]"
    and "\<forall>c \<in> set (get_word_inds word). c < 77"
  shows "\<exists>equalizer.
      get_equalizer get_word_inds (Single word) [2] = Inr equalizer
    \<and> shape equalizer = [1, 77]
    \<and> (\<forall>n. n < 77 \<longrightarrow> get equalizer [0, n] = (if n \<in> set (get_word_inds word) then 2 else 1))
    \<and> (\<exists>r. replace_cross_attention (AttentionReweight equalizer None) attn_base att_replace = Inr r
          \<and> shape r = [1, h, p, 77]
          \<and> (\<forall>j i n. j < h \<and> i < p \<and> n < 77 \<longrightarrow>
                get r [0, j, i, n] = get attn_base [j, i, n] * get equalizer [0, n])
          \<and> (\<forall>j i n. j < h \<and> i < p \<and> n < 77 \<longrightarrow>
                get r [0, j, i, n] = (if n \<in> set (get_word_inds word)
                                      then 2 * get attn_base [j, i, n] else get attn_base [j, i, n])))
    \<and> (\<forall>c b prior.
          replace_cross_attention c attn_base att_replace = Inr prior \<and> shape prior = [b, h, p, 77]
          \<longrightarrow> (\<exists>r. replace_cross_attention (AttentionReweight equalizer (Some c)) attn_base att_replace
                       = Inr r
                 \<and> shape r = [1, b, h, p, 77]
                 \<and> (\<forall>v j i n. v < b \<and> j < h \<and> i < p \<and> n < 77 \<longrightarrow>
                       get r [0, v, j, i, n] = get prior [v, j, i, n] * get equalizer [0, n])
                 \<and> (prior = expand0 b attn_base \<longrightarrow>
                      (\<forall>v j i n. v < b \<and> j < h \<and> i < p \<and> n < 77 \<longrightarrow>
                         get r [0, v, j, i, n] = (if n \<in> set (get_word_inds word)
                                                  then 2 * get attn_base [j, i, n]
                                                  else get attn_base [j, i, n])))))"
proof -
  let ?inds = "get_word_inds word"
  let ?eq = "tabulate [1, 77] (\<lambda>idx. if idx ! 1 \<in> set ?inds then 2 else (1::real))"
  have ge: "get_equalizer get_word_inds (Single word) [2] = Inr ?eq"
    using assms(3) by (rule get_equalizer_single)
  have se: "shape ?eq = [1, 77]" by simp
  have gq: "get ?eq [0, n] = (if n \<in> set ?inds then 2 else 1)" if "n < 77" for n
    using that by (simp add: get_tabulate)
  from reweight_none[OF assms(2) se, of att_replace] obtain r where
    r: "replace_cross_attention (AttentionReweight ?eq None) attn_base att_replace = Inr r"
    and sr: "shape r = [1, h, p, 77]"
    and gr: "\<forall>v j i n. v < 1 \<and> j < h \<and> i < p \<and> n < 77 \<longrightarrow>
                 get r [v, j, i, n] = get attn_base [j, i, n] * get ?eq [v, n]"
    by blast
  have gr1: "\<forall>j i n. j < h \<and> i < p \<and> n < 77 \<longrightarrow>
                get r [0, j, i, n] = get attn_base [j, i, n] * get ?eq [0, n]"
    using gr by simp
  have gr2: "\<forall>j i n. j < h \<and> i < p \<and> n < 77 \<longrightarrow>
                get r [0, j, i, n] = (if n \<in> set ?inds
                                      then 2 * get attn_base [j, i, n] else get attn_base [j, i, n])"
    using gr1 gq by simp
  have none: "\<exists>r. replace_cross_attention (AttentionReweight ?eq None) attn_base att_replace = Inr r
          \<and> shape r = [1, h, p, 77]
          \<and> (\<forall>j i n. j < h \<and> i < p \<and> n < 77 \<longrightarrow>
                get r [0, j, i, n] = get attn_base [j, i, n] * get ?eq [0, n])
          \<and> (\<forall>j i n. j < h \<and> i < p \<and> n < 77 \<longrightarrow>
                get r [0, j, i, n] = (if n \<in> set ?inds
                                      then 2 * get attn_base [j, i, n] else get attn_base [j, i, n]))"
    by (rule exI[of _ r]) (intro conjI r sr gr1 gr2)
  have some: "\<exists>r. replace_cross_attention (AttentionReweight ?eq (Some c)) attn_base att_replace
                       = Inr r
                 \<and> shape r = [1, b, h, p, 77]
                 \<and> (\<forall>v j i n. v < b \<and> j < h \<and> i < p \<and> n < 77 \<longrightarrow>
                       get r [0, v, j, i, n] = get prior [v, j, i, n] * get ?eq [0, n])
                 \<and> (prior = expand0 b attn_base \<longrightarrow>
                      (\<forall>v j i n. v < b \<and> j < h \<and> i < p \<and> n < 77 \<longrightarrow>
                         get r [0, v, j, i, n] = (if n \<in> set ?inds
                                                  then 2 * get attn_base [j, i, n]
                                                  else get attn_base [j, i, n])))"
    if p: "replace_cross_attention c attn_base att_replace = Inr prior \<and> shape prior = [b, h, p, 77]"
    for c b prior
  proof -
    from reweight_prior[of c attn_base att_replace prior b h p 77 ?eq 1] p se obtain r' where
      r': "replace_cross_attention (AttentionReweight ?eq (Some c)) attn_base att_replace = Inr r'"
      and sr': "shape r' = [1, b, h, p, 77]"
      and g': "\<forall>v j i n. v < b \<and> j < h \<and> i < p \<and> n < 77 \<longrightarrow>
                 get r' [0, v, j, i, n] = get prior [v, j, i, n] * get ?eq [0, n]"
      by auto
    have g'': "prior = expand0 b attn_base \<longrightarrow>
                      (\<forall>v j i n. v < b \<and> j < h \<and> i < p \<and> n < 77 \<longrightarrow>
                         get r' [0, v, j, i, n] = (if n \<in> set ?inds
                                                  then 2 * get attn_base [j, i, n]
                                                  else get attn_base [j, i, n]))"
      using g' gq expand0_get[OF assms(1,2)] by simp
    show ?thesis by (rule exI[of _ r']) (intro conjI r' sr' g' g'')
  qed
  have gq': "\<forall>n. n < 77 \<longrightarrow> get ?eq [0, n] = (if n \<in> set ?inds then 2 else 1)"
    using gq by blast
  have some': "\<forall>c b prior.
          replace_cross_attention c attn_base att_replace = Inr prior \<and> shape prior = [b, h, p, 77]
          \<longrightarrow> (\<exists>r. replace_cross_attention (AttentionReweight ?eq (Some c)) attn_base att_replace
                       = Inr r
                 \<and> shape r = [1, b, h, p, 77]
                 \<and> (\<forall>v j i n. v < b \<and> j < h \<and> i < p \<and> n < 77 \<longrightarrow>
                       get r [0, v, j, i, n] = get prior [v, j, i, n] * get ?eq [0, n])
                 \<and> (prior = expand0 b attn_base \<longrightarrow>
                      (\<forall>v j i n. v < b \<and> j < h \<and> i < p \<and> n < 77 \<longrightarrow>
                         get r [0, v, j, i, n] = (if n \<in> set ?inds
                                                  then 2 * get attn_base [j, i, n]
                                                  else get attn_base [j, i, n]))))"
    using some by blast
  show ?thesis
    by (rule exI[of _ ?eq]) (intro conjI ge se gq' none some')
qed

lemma ex_identity_prior:
  "replace_cross_attention (AttentionReplace ex_id77) ex_base ex_base = Inr (expand0 1 ex_base)"
proof (rule replace_identity)
  show "wf_tensor ex_base" by (simp add: wf_tensor_def ex_base_def)
  show "shape ex_base = [1, 1, 77]" by (simp add: ex_base_def)
  show "shape ex_id77 = [1, 77, 77]" by (simp add: ex_id77_def)
  show "\<forall>v k n. v < 1 \<and> k < 77 \<and> n < 77 \<longrightarrow> get ex_id77 [v, k, n] = (if k = n then 1 else 0)"
    by (simp add: ex_id77_def get_tabulate)
qed

theorem reweight_scales_selected_word_witness:
  "wf_tensor ex_base \<and> shape ex_base = [1, 1, 77] \<and> list_all (\<lambda>c. c < 77) (ex_word_inds ''castle'')
   \<and> replace_cross_attention (AttentionReplace ex_id77) ex_base ex_base = Inr (expand0 1 ex_base)
   \<and> shape (expand0 1 ex_base) = [1, 1, 1, 77]
   \<and> (\<exists>equalizer r r'.
        get_equalizer ex_word_inds (Single ''castle'') [2] = Inr equalizer
      \<and> replace_cross_attention (AttentionReweight equalizer None) ex_base ex_base = Inr r
      \<and> get r [0, 0, 0, 2] = 2 * get ex_base [0, 0, 2]
      \<and> get r [0, 0, 0, 3] = get ex_base [0, 0, 3]
      \<and> replace_cross_attention (AttentionReweight equalizer (Some (AttentionReplace ex_id77)))
           ex_base ex_base = Inr r'
      \<and> get r' [0, 0, 0, 0, 2] = 2 * get ex_base [0, 0, 2]
      \<and> get r' [0, 0, 0, 0, 3] = get ex_base [0, 0, 3])"
proof -
  have w: "wf_tensor ex_base" by (simp add: wf_tensor_def ex_base_def)
  have s: "shape ex_base = [1, 1, 77]" by (simp add: ex_base_def)
  have i: "\<forall>c \<in> set (ex_word_inds ''castle''). c < 77" by (simp add: ex_word_inds_def)
  have i': "list_all (\<lambda>c. c < 77) (ex_word_inds ''castle'')" by (simp add: ex_word_inds_def)
  have se: "shape (expand0 1 ex_base) = [1, 1, 1, 77]" by (simp add: expand0_def ex_base_def)
  note T = reweight_scales_selected_word[where get_word_inds = ex_word_inds and word = "''castle''"
      and attn_base = ex_base and att_replace = ex_base, OF w s i]
  have "\<exists>equalizer r r'.
        get_equalizer ex_word_inds (Single ''castle'') [2] = Inr equalizer
      \<and> replace_cross_attention (AttentionReweight equalizer None) ex_base ex_base = Inr r
      \<and> get r [0, 0, 0, 2] = 2 * get ex_base [0, 0, 2]
      \<and> get r [0, 0, 0, 3] = get ex_base [0, 0, 3]
      \<and> replace_cross_attention (AttentionReweight equalizer (Some (AttentionReplace ex_id77)))
           ex_base ex_base = Inr r'
      \<and> get r' [0, 0, 0, 0, 2] = 2 * get ex_base [0, 0, 2]
      \<and> get r' [0, 0, 0, 0, 3] = get ex_base [0, 0, 3]"
    using T
    apply (elim exE conjE)
    subgoal premises prems for equalizer r
    proof -
      note P = prems(4)[rule_format, OF conjI[OF ex_identity_prior se]]
      from P obtain r' where
        r': "replace_cross_attention (AttentionReweight equalizer (Some (AttentionReplace ex_id77)))
               ex_base ex_base = Inr r'"
        and g: "expand0 1 ex_base = expand0 1 ex_base \<longrightarrow>
                  (\<forall>v j i n. v < 1 \<and> j < 1 \<and> i < 1 \<and> n < 77 \<longrightarrow>
                     get r' [0, v, j, i, n] = (if n \<in> set (ex_word_inds ''castle'')
                                              then 2 * get ex_base [j, i, n]
                                              else get ex_base [j, i, n]))"
        by (elim exE conjE)
      have a: "get r [0, 0, 0, 2] = 2 * get ex_base [0, 0, 2]"
        using prems(8)[rule_format, of 0 0 2] by (simp add: ex_word_inds_def)
      have b: "get r [0, 0, 0, 3] = get ex_base [0, 0, 3]"
        using prems(8)[rule_format, of 0 0 3] by (simp add: ex_word_inds_def)
      have c: "get r' [0, 0, 0, 0, 2] = 2 * get ex_base [0, 0, 2]"
        using g[rule_format, OF refl, of 0 0 0 2] by (simp add: ex_word_inds_def)
      have d: "get r' [0, 0, 0, 0, 3] = get ex_base [0, 0, 3]"
        using g[rule_format, OF refl, of 0 0 0 3] by (simp add: ex_word_inds_def)
      show ?thesis
        by (intro exI[of _ equalizer] exI[of _ r] exI[of _ r'] conjI prems(1) prems(5) a b r' c d)
    qed
    done
  with w s i' ex_identity_prior se show ?thesis by (intro conjI)
qed

subsection \<open>The step callback and LocalBlend\<close>















lemma local_blend_init_shape:
  "local_blend_init n word_inds th = Inr lb \<Longrightarrow> shape (alpha_layers lb) = [n, 1, 1, 1, 1, 77]"
  by (auto simp: local_blend_init_def Let_def MAX_NUM_WORDS_def split: if_splits)

lemma composite_three_prompts:
  assumes "shape x_t = [3, C, H, W]" "shape m = [2, 1, H, W]"
  shows "composite m x_t = Inl RuntimeError"
proof -
  let ?x0 = "\<lparr>shape = [1, C, H, W], vals = take (C * (H * W)) (vals x_t)\<rparr>"
  have s0: "slice_upto 1 x_t = Inr ?x0" using assms(1) by (simp add: slice_upto_def)
  have b1: "broadcast_shapes (shape x_t) (shape ?x0) = Inr [3, C, H, W]"
    using assms(1) by (simp add: broadcast_shapes_def)
  from binop_ok[OF b1, of "(-)"] obtain diff where d: "binop (-) x_t ?x0 = Inr diff"
    and sd: "shape diff = [3, C, H, W]" by auto
  have "broadcast_shapes (shape m) (shape diff) = Inl RuntimeError"
    using assms(2) sd by (simp add: broadcast_shapes_def)
  then have "binop (*) m diff = Inl RuntimeError" by (simp add: binop_def)
  then show ?thesis unfolding composite_def by (simp only: s0 d sum.case)
qed



end
